theory Spec2Isabelle
  imports Main "HOL-Library.Sublist"
begin

section \<open>Values, exceptions and the Event class\<close>

text \<open>
  The embedding follows \<open>src/asyncgui/_core.py\<close>. Python values that travel through the
  suspension protocol are kept symbolic: \<open>VTask\<close> is the Task object itself, \<open>VStep_coro\<close>
  is its bound method \<open>task._step_coro\<close>, and \<open>VPayload args kwargs\<close> is the tuple
  \<open>(args, kwargs)\<close> that \<open>_step_coro\<close> sends into the coroutine and that \<open>Event.set\<close>
  stores in \<open>_value\<close>.
\<close>

datatype val =
    VNone
  | VInt int
  | VStr string
  | VTask
  | VStep_coro
  | VPayload "val list" "(string \<times> val) list"

type_synonym kwargs = "(string \<times> val) list"

text \<open>Exception messages; the two numbers and strings are \<open>uid\<close> and \<open>name\<close> of
  \<open>Task.__str__\<close>.\<close>

datatype message =
    Is_not_awaitable
  | Was_already_started nat string
  | Must_be_task_or_awaitable
  | Was_cancelled nat string
  | Result_is_not_ready nat string
  | Already_executing
  | Already_awaited
  | Just_started
  | Ignored_GeneratorExit
  | Not_subscriptable
  | Index_out_of_range
  | No_attribute
  | Cannot_unpack

datatype exc =
    ValueError message
  | InvalidStateError message
  | RuntimeError message
  | TypeError message
  | IndexError message
  | AttributeError message
  | UserError string
  | KeyboardInterrupt
  | GeneratorExit

text \<open>\<open>except Exception\<close> catches everything but the two exceptions that derive from
  \<open>BaseException\<close> directly.\<close>

fun is_Exception :: "exc \<Rightarrow> bool" where
  "is_Exception KeyboardInterrupt = False"
| "is_Exception GeneratorExit = False"
| "is_Exception _ = True"

datatype TaskState = CREATED | STARTED | CANCELLED | DONE

definition ENDED :: "TaskState set" where
  "ENDED = {CANCELLED, DONE}"

datatype coro_state = CORO_CREATED | CORO_RUNNING | CORO_SUSPENDED | CORO_CLOSED

text \<open>
  class \<open>Event\<close>. \<open>ev_value\<close> is \<open>None\<close> until the first \<open>set\<close>, then the tuple
  \<open>(args, kwargs)\<close>. The type parameter is the type of the callbacks held in
  \<open>_step_coro_list\<close>. A method that calls callbacks returns the calls it makes, in order,
  each with its arguments; the caller performs them after the fields have been updated,
  as the source does.
\<close>

record 'cb Event =
  ev_value :: "(val list \<times> kwargs) option"
  ev_flag :: bool
  ev_step_coro_list :: "'cb list"

type_synonym 'cb call = "'cb \<times> val list \<times> kwargs"

definition Event_init :: "'cb Event" where
  "Event_init = \<lparr>ev_value = None, ev_flag = False, ev_step_coro_list = []\<rparr>"

definition is_set :: "'cb Event \<Rightarrow> bool" where
  "is_set e = ev_flag e"

definition Event_set :: "val list \<Rightarrow> kwargs \<Rightarrow> 'cb Event \<Rightarrow> 'cb Event \<times> 'cb call list" where
  "Event_set args kwargs e =
     (if ev_flag e then (e, [])
      else (e\<lparr>ev_flag := True, ev_value := Some (args, kwargs), ev_step_coro_list := []\<rparr>,
            map (\<lambda>step_coro. (step_coro, args, kwargs)) (ev_step_coro_list e)))"

definition Event_clear :: "'cb Event \<Rightarrow> 'cb Event" where
  "Event_clear e = e\<lparr>ev_flag := False\<rparr>"

definition Event_add_callback :: "'cb \<Rightarrow> 'cb Event \<Rightarrow> exc + 'cb Event \<times> 'cb call list" where
  "Event_add_callback callback e =
     (if ev_flag e then
        (case ev_value e of
           Some (args, kwargs) \<Rightarrow> Inr (e, [(callback, args, kwargs)])
         | None \<Rightarrow> Inl (TypeError Cannot_unpack))
      else Inr (e\<lparr>ev_step_coro_list := ev_step_coro_list e @ [callback]\<rparr>, []))"

text \<open>What \<open>return self._value\<close> hands to the computation.\<close>

fun payload_val :: "(val list \<times> kwargs) option \<Rightarrow> val" where
  "payload_val None = VNone"
| "payload_val (Some (args, kwargs)) = VPayload args kwargs"

section \<open>Suspendable computations\<close>

text \<open>
  The awaitable wrapped by a Task is a parameter of the library. It is taken as a
  sequence of statements built from the suspension points of the module itself:
  \<open>await sleep_forever()\<close>, \<open>await events[i].wait()\<close>, \<open>await get_step_coro()\<close>,
  \<open>await get_current_task()\<close>, \<open>async with cancel_protection(): body\<close>, together with a
  call of \<open>task.cancel()\<close> on the running task itself, \<open>raise\<close> and \<open>return\<close>.
  A computation has no handler of its own: an exception raised in it, or the
  \<open>GeneratorExit\<close> thrown in by \<open>close\<close>, runs the \<open>finally\<close> of the protection scopes that
  are open and reaches \<open>Task._wrapper\<close>.
\<close>

datatype stmt =
    Sleep_forever
  | Event_wait nat
  | Get_step_coro
  | Get_current_task
  | Cancel_protection "stmt list"
  | Cancel
  | Raise exc
  | Return val

text \<open>The rest of a running computation: statements still to run, and \<open>Release\<close> for the
  \<open>finally: task._cancel_protection -= 1\<close> of each protection scope that is open.\<close>

datatype item = Do stmt | Release

text \<open>The \<open>yield\<close> a suspended computation sits at, which decides what it does with the
  value it is resumed with.\<close>

datatype resume =
    R_sleep_forever
  | R_wait_set nat
  | R_wait_unset
  | R_get_step_coro
  | R_get_current_task
  | R_cancel_protection "stmt list"

text \<open>The registration requests the suspension points yield:
  \<open>lambda step_coro: None\<close>, \<open>lambda step_coro: step_coro()\<close>,
  \<open>lambda step_coro: step_coro(step_coro)\<close>, and \<open>events[i]._step_coro_list.append\<close>.\<close>

datatype request = Req_ignore | Req_call | Req_call_self | Req_append nat

datatype coroutine =
    Coro_created "stmt list"
  | Coro_running
  | Coro_suspended resume "item list"
  | Coro_closed

fun getcoroutinestate :: "coroutine \<Rightarrow> coro_state" where
  "getcoroutinestate (Coro_created p) = CORO_CREATED"
| "getcoroutinestate Coro_running = CORO_RUNNING"
| "getcoroutinestate (Coro_suspended r k) = CORO_SUSPENDED"
| "getcoroutinestate Coro_closed = CORO_CLOSED"

text \<open>Callbacks held by the events of the environment: the bound method \<open>_step_coro\<close> of
  the Task with a given \<open>uid\<close>, or a callback of the driver, known by a number, whose
  calls are recorded.\<close>

datatype callback = Step_coro nat | External nat

section \<open>The Task and the world it runs in\<close>

text \<open>
  One Task object with the slots of the class, and the environment: the events the
  computation may wait on, the calls made so far to callbacks of the driver, the calls
  made so far to \<open>_step_coro\<close> of Tasks other than this one (by their \<open>uid\<close>), and the
  class attribute \<open>_uid_iter\<close>. \<open>result = None\<close> is the slot \<open>_result\<close> not yet assigned.
  Two history fields record what the computation and the task did: \<open>received\<close> holds the
  values the \<open>await\<close> expressions of the computation evaluated to, and \<open>state_log\<close> every
  value assigned to \<open>_state\<close>, in order.
\<close>

record world =
  name :: string
  uid :: nat
  root_coro :: coroutine
  state :: TaskState
  result :: "val option"
  event :: "nat Event"
  cancel_called :: bool
  userdata :: val
  exception :: "exc option"
  suppresses_exception :: bool
  cancel_protection :: int
  events :: "nat \<Rightarrow> callback Event"
  calls :: "nat call list"
  other_steps :: "nat call list"
  uid_iter :: nat
  received :: "val list"
  state_log :: "TaskState list"

datatype awaitable = Awaitable "stmt list" | Not_awaitable val

definition set_state :: "TaskState \<Rightarrow> world \<Rightarrow> world" where
  "set_state s w = w\<lparr>state := s, state_log := state_log w @ [s]\<rparr>"

text \<open>\<open>Task.__init__\<close>, in the environment of \<open>env\<close>.\<close>

definition Task_init :: "awaitable \<Rightarrow> string \<Rightarrow> val \<Rightarrow> world \<Rightarrow> exc + world" where
  "Task_init a nm ud env =
     (case a of
        Not_awaitable v \<Rightarrow> Inl (ValueError Is_not_awaitable)
      | Awaitable p \<Rightarrow>
          Inr (env\<lparr>uid := uid_iter env, uid_iter := uid_iter env + 1, name := nm,
                    userdata := ud, cancel_protection := 0, root_coro := Coro_created p,
                    state := CREATED, state_log := [CREATED], event := Event_init,
                    cancel_called := False, exception := None,
                    suppresses_exception := False, result := None, received := []\<rparr>))"

definition Task_done :: "world \<Rightarrow> bool" where
  "Task_done w = (state w = DONE)"

definition Task_cancelled :: "world \<Rightarrow> bool" where
  "Task_cancelled w = (state w = CANCELLED)"

text \<open>The property \<open>Task.result\<close>.\<close>

definition Task_result :: "world \<Rightarrow> exc + val" where
  "Task_result w =
     (if state w = DONE then
        (case result w of Some v \<Rightarrow> Inr v | None \<Rightarrow> Inl (AttributeError No_attribute))
      else if state w = CANCELLED then Inl (InvalidStateError (Was_cancelled (uid w) (name w)))
      else Inl (InvalidStateError (Result_is_not_ready (uid w) (name w))))"

section \<open>The coroutine of \<open>Task._wrapper\<close>\<close>

text \<open>Leaving the computation by \<open>return\<close>, by an exception or by \<open>GeneratorExit\<close> runs the
  \<open>finally\<close> of every open protection scope.\<close>

fun unwind :: "item list \<Rightarrow> world \<Rightarrow> world" where
  "unwind [] w = w"
| "unwind (Release # k) w = unwind k (w\<lparr>cancel_protection := cancel_protection w - 1\<rparr>)"
| "unwind (Do s # k) w = unwind k w"

datatype outcome = Yield request resume "item list" | Returned val | Raised exc

datatype sent = Yielded request | StopIteration | Raises exc

text \<open>\<open>finally: self._event.set(self)\<close>: the callbacks of the completion event are
  callbacks of the driver, and their calls are recorded.\<close>

definition finally_set :: "world \<Rightarrow> world" where
  "finally_set w =
     (case Event_set [VTask] [] (event w) of
        (e, cs) \<Rightarrow> w\<lparr>event := e, calls := calls w @ cs\<rparr>)"

text \<open>
  \<open>Task._wrapper\<close> around \<open>await awaitable\<close>: a \<open>yield\<close> of the computation passes
  through; its return value goes to \<open>_result\<close> and the \<open>else\<close> branch; an exception goes to
  \<open>except Exception\<close> or to the bare \<open>except\<close>. The coroutine is closed when the wrapper
  has returned or raised.
\<close>

definition wrapper :: "outcome \<times> world \<Rightarrow> sent \<times> world" where
  "wrapper ow =
     (case ow of
        (Yield rq r k, w) \<Rightarrow> (Yielded rq, w\<lparr>root_coro := Coro_suspended r k\<rparr>)
      | (Returned v, w) \<Rightarrow>
          (StopIteration,
           (finally_set (set_state DONE (w\<lparr>result := Some v\<rparr>)))\<lparr>root_coro := Coro_closed\<rparr>)
      | (Raised e, w) \<Rightarrow>
          (if is_Exception e then
             (if suppresses_exception w then
                (StopIteration,
                 (finally_set ((set_state CANCELLED w)\<lparr>exception := Some e\<rparr>))
                   \<lparr>root_coro := Coro_closed\<rparr>)
              else
                (Raises e, (finally_set (set_state CANCELLED w))\<lparr>root_coro := Coro_closed\<rparr>))
           else
             (Raises e, (finally_set (set_state CANCELLED w))\<lparr>root_coro := Coro_closed\<rparr>)))"

text \<open>
  \<open>coroutine.close()\<close>: a coroutine that was never started is closed without running any
  of its code; a suspended one has \<open>GeneratorExit\<close> thrown in at its \<open>yield\<close>, and \<open>close\<close>
  returns when that comes back out (or the coroutine returns).
\<close>

definition coro_close :: "world \<Rightarrow> exc option \<times> world" where
  "coro_close w =
     (case root_coro w of
        Coro_created p \<Rightarrow> (None, w\<lparr>root_coro := Coro_closed\<rparr>)
      | Coro_running \<Rightarrow> (Some (ValueError Already_executing), w)
      | Coro_closed \<Rightarrow> (None, w)
      | Coro_suspended r k \<Rightarrow>
          (case wrapper (Raised GeneratorExit, unwind k (w\<lparr>root_coro := Coro_running\<rparr>)) of
             (Raises GeneratorExit, w') \<Rightarrow> (None, w')
           | (Raises e, w') \<Rightarrow> (Some e, w')
           | (StopIteration, w') \<Rightarrow> (None, w')
           | (Yielded rq, w') \<Rightarrow> (Some (RuntimeError Ignored_GeneratorExit), w')))"

definition is_cancellable :: "world \<Rightarrow> bool" where
  "is_cancellable w =
     (cancel_protection w = 0 \<and> getcoroutinestate (root_coro w) \<noteq> CORO_RUNNING)"

definition actual_cancel :: "world \<Rightarrow> exc option \<times> world" where
  "actual_cancel w = coro_close w"

text \<open>\<open>Task.cancel\<close>.\<close>

definition cancel :: "world \<Rightarrow> exc option \<times> world" where
  "cancel w =
     (let w' = w\<lparr>cancel_called := True\<rparr>
      in if is_cancellable w' then actual_cancel w' else (None, w'))"

text \<open>Running the computation up to its next \<open>yield\<close>, its return or an exception.\<close>

fun exec :: "item list \<Rightarrow> world \<Rightarrow> outcome \<times> world" where
  "exec [] w = (Returned VNone, w)"
| "exec (Release # k) w = exec k (w\<lparr>cancel_protection := cancel_protection w - 1\<rparr>)"
| "exec (Do Sleep_forever # k) w = (Yield Req_ignore R_sleep_forever k, w)"
| "exec (Do (Event_wait i) # k) w =
     (if ev_flag (events w i) then (Yield Req_call (R_wait_set i) k, w)
      else (Yield (Req_append i) R_wait_unset k, w))"
| "exec (Do Get_step_coro # k) w = (Yield Req_call_self R_get_step_coro k, w)"
| "exec (Do Get_current_task # k) w = (Yield Req_call_self R_get_current_task k, w)"
| "exec (Do (Cancel_protection body) # k) w =
     (Yield Req_call_self (R_cancel_protection body) k, w)"
| "exec (Do Cancel # k) w =
     (case cancel w of
        (None, w') \<Rightarrow> exec k w'
      | (Some e, w') \<Rightarrow> (Raised e, unwind k w'))"
| "exec (Do (Raise e) # k) w = (Raised e, unwind k w)"
| "exec (Do (Return v) # k) w = (Returned v, unwind k w)"

text \<open>\<open>(yield ...)[0][0]\<close> of \<open>get_step_coro\<close>, on the value sent in.\<close>

fun first_arg :: "(val list \<times> kwargs) option \<Rightarrow> exc + val" where
  "first_arg None = Inl (TypeError Not_subscriptable)"
| "first_arg (Some ([], kw)) = Inl (IndexError Index_out_of_range)"
| "first_arg (Some (a # as, kw)) = Inr a"

text \<open>\<open>getattr(step_coro, '__self__', None)\<close> of \<open>get_current_task\<close>.\<close>

fun self_of :: "val \<Rightarrow> val" where
  "self_of VStep_coro = VTask"
| "self_of _ = VNone"

definition await_value :: "val \<Rightarrow> world \<Rightarrow> world" where
  "await_value v w = w\<lparr>received := received w @ [v]\<rparr>"

text \<open>Resuming a suspended computation with the value \<open>v\<close> sent in.\<close>

fun resume_with :: "resume \<Rightarrow> item list \<Rightarrow> (val list \<times> kwargs) option \<Rightarrow> world \<Rightarrow> outcome \<times> world" where
  "resume_with R_sleep_forever k v w = exec k (await_value VNone w)"
| "resume_with (R_wait_set i) k v w = exec k (await_value (payload_val (ev_value (events w i))) w)"
| "resume_with R_wait_unset k v w = exec k (await_value (payload_val v) w)"
| "resume_with R_get_step_coro k v w =
     (case first_arg v of
        Inl e \<Rightarrow> (Raised e, unwind k w)
      | Inr a \<Rightarrow> exec k (await_value a w))"
| "resume_with R_get_current_task k v w =
     (case first_arg v of
        Inl e \<Rightarrow> (Raised e, unwind k w)
      | Inr a \<Rightarrow> exec k (await_value (self_of a) w))"
| "resume_with (R_cancel_protection body) k v w =
     (case first_arg v of
        Inl e \<Rightarrow> (Raised e, unwind k w)
      | Inr a \<Rightarrow>
          (if self_of a = VTask then
             exec (map Do body @ Release # k) (w\<lparr>cancel_protection := cancel_protection w + 1\<rparr>)
           else (Raised (AttributeError No_attribute), unwind k w)))"

text \<open>\<open>coroutine.send(v)\<close> on \<open>_root_coro\<close>. The first \<open>send\<close> runs
  \<open>self._state = TaskState.STARTED\<close> and then the computation from its start.\<close>

definition coro_send :: "(val list \<times> kwargs) option \<Rightarrow> world \<Rightarrow> sent \<times> world" where
  "coro_send v w =
     (case root_coro w of
        Coro_created p \<Rightarrow>
          (if v \<noteq> None then (Raises (TypeError Just_started), w)
           else wrapper (exec (map Do p) (set_state STARTED (w\<lparr>root_coro := Coro_running\<rparr>))))
      | Coro_running \<Rightarrow> (Raises (ValueError Already_executing), w)
      | Coro_suspended r k \<Rightarrow> wrapper (resume_with r k v (w\<lparr>root_coro := Coro_running\<rparr>))
      | Coro_closed \<Rightarrow> (Raises (RuntimeError Already_awaited), w))"

section \<open>Step driving\<close>

text \<open>A measure of what is left of a coroutine: every statement weighs more than the
  \<open>yield\<close> it suspends at.\<close>

fun wt_stmt :: "stmt \<Rightarrow> nat" where
  "wt_stmt (Cancel_protection body) = 3 + sum_list (map wt_stmt body)"
| "wt_stmt _ = 2"

fun wt_item :: "item \<Rightarrow> nat" where
  "wt_item (Do s) = wt_stmt s"
| "wt_item Release = 1"

fun wt_resume :: "resume \<Rightarrow> nat" where
  "wt_resume (R_cancel_protection body) = 2 + sum_list (map wt_stmt body)"
| "wt_resume _ = 1"

fun wt_coro :: "coroutine \<Rightarrow> nat" where
  "wt_coro (Coro_created p) = 1 + sum_list (map wt_stmt p)"
| "wt_coro (Coro_suspended r k) = wt_resume r + sum_list (map wt_item k)"
| "wt_coro _ = 0"

text \<open>\<open>events[i]._step_coro_list.append(task._step_coro)\<close>.\<close>

definition append_waiter :: "nat \<Rightarrow> world \<Rightarrow> world" where
  "append_waiter i w =
     w\<lparr>events := (events w)
          (i := (events w i)\<lparr>ev_step_coro_list :=
                 ev_step_coro_list (events w i) @ [Step_coro (uid w)]\<rparr>)\<rparr>"

text \<open>The \<open>else\<close> branch shared by \<open>_step_coro\<close> and \<open>start\<close>.\<close>

definition check_cancel :: "world \<Rightarrow> exc option \<times> world" where
  "check_cancel w =
     (if cancel_called w \<and> is_cancellable w then actual_cancel w else (None, w))"

text \<open>
  \<open>Task._step_coro\<close>. The request that \<open>send\<close> returns is called with \<open>self._step_coro\<close>
  inside the \<open>try\<close>: two of the requests call it back at once, which is a nested call of
  \<open>_step_coro\<close>. \<open>StopIteration\<close> is swallowed, any other exception leaves through the
  caller, and only a step that raised nothing reaches the \<open>else\<close> branch.
\<close>

function step_coro :: "val list \<Rightarrow> kwargs \<Rightarrow> world \<Rightarrow> exc option \<times> world" where
  "step_coro args kwargs w =
     (if getcoroutinestate (root_coro w) \<noteq> CORO_CLOSED then
        (case coro_send (Some (args, kwargs)) w of
           (StopIteration, w1) \<Rightarrow> (None, w1)
         | (Raises e, w1) \<Rightarrow> (Some e, w1)
         | (Yielded rq, w1) \<Rightarrow>
             (case (case rq of
                      Req_ignore \<Rightarrow> (None, w1)
                    | Req_call \<Rightarrow> step_coro [] [] w1
                    | Req_call_self \<Rightarrow> step_coro [VStep_coro] [] w1
                    | Req_append i \<Rightarrow> (None, append_waiter i w1)) of
                (Some e, w2) \<Rightarrow> (Some e, w2)
              | (None, w2) \<Rightarrow> check_cancel w2))
      else check_cancel w)"
  by pat_completeness auto

termination
proof (relation "measure (\<lambda>(args, kwargs, w). wt_coro (root_coro w))")
  have ex: "exec k w = (Yield rq r k', w')
      \<Longrightarrow> wt_resume r + sum_list (map wt_item k') < sum_list (map wt_item k)"
    for k w rq r k' w'
    by (induction k w rule: exec.induct) (auto split: prod.splits option.splits if_splits)
  have re: "resume_with r0 k v w = (Yield rq r k', w')
      \<Longrightarrow> wt_resume r + sum_list (map wt_item k') < wt_resume r0 + sum_list (map wt_item k)"
    for r0 k v w rq r k' w'
    by (cases r0) (auto dest!: ex split: sum.splits if_splits simp: comp_def)
  have se: "coro_send (Some a) w = (Yielded rq, w1) \<Longrightarrow> wt_coro (root_coro w1) < wt_coro (root_coro w)"
    for a w rq w1
    unfolding coro_send_def wrapper_def
    by (cases "root_coro w")
       (auto dest!: re split: prod.splits outcome.splits if_splits)
  show "wf (measure (\<lambda>(args, kwargs, w). wt_coro (root_coro w)))"
    by simp
  show "(([], [], w1), args, kwargs, w) \<in> measure (\<lambda>(args, kwargs, w). wt_coro (root_coro w))"
    if "(x, w1) = coro_send (Some (args, kwargs)) w" and "x = Yielded rq"
    for args kwargs w x w1 rq
    using that se [of "(args, kwargs)" w rq w1] by simp
  show "(([VStep_coro], [], w1), args, kwargs, w) \<in> measure (\<lambda>(args, kwargs, w). wt_coro (root_coro w))"
    if "(x, w1) = coro_send (Some (args, kwargs)) w" and "x = Yielded rq"
    for args kwargs w x w1 rq
    using that se [of "(args, kwargs)" w rq w1] by simp
qed

declare step_coro.simps [simp del]

text \<open>Calling a registration request with \<open>task._step_coro\<close>.\<close>

definition call_request :: "request \<Rightarrow> world \<Rightarrow> exc option \<times> world" where
  "call_request rq w =
     (case rq of
        Req_ignore \<Rightarrow> (None, w)
      | Req_call \<Rightarrow> step_coro [] [] w
      | Req_call_self \<Rightarrow> step_coro [VStep_coro] [] w
      | Req_append i \<Rightarrow> (None, append_waiter i w))"

text \<open>The first step of \<open>start\<close>: \<open>coro.send(None)(task._step_coro)\<close> in its \<open>try\<close>.\<close>

definition first_step :: "world \<Rightarrow> exc option \<times> world" where
  "first_step w =
     (case coro_send None w of
        (StopIteration, w1) \<Rightarrow> (None, w1)
      | (Raises e, w1) \<Rightarrow> (Some e, w1)
      | (Yielded rq, w1) \<Rightarrow>
          (case call_request rq w1 of
             (Some e, w2) \<Rightarrow> (Some e, w2)
           | (None, w2) \<Rightarrow> check_cancel w2))"

text \<open>The argument of \<open>start\<close>: an awaitable, the Task of the world, or anything else.
  For an awaitable \<open>start\<close> makes a new Task, with a new \<open>uid\<close>, and the world goes on with
  that one: what the events still hold of the Task before is \<open>_step_coro\<close> of another
  Task from then on.\<close>

datatype start_arg = Arg_awaitable "stmt list" | Arg_task | Arg_other val

definition start :: "start_arg \<Rightarrow> world \<Rightarrow> exc option \<times> world" where
  "start a w =
     (case a of
        Arg_awaitable p \<Rightarrow>
          (case Task_init (Awaitable p) [] VNone w of
             Inl e \<Rightarrow> (Some e, w)
           | Inr w' \<Rightarrow> first_step w')
      | Arg_task \<Rightarrow>
          (if state w \<noteq> CREATED
           then (Some (ValueError (Was_already_started (uid w) (name w))), w)
           else first_step w)
      | Arg_other v \<Rightarrow> (Some (ValueError Must_be_task_or_awaitable), w))"

section \<open>The driver\<close>

text \<open>Performing the calls an Event method makes: a callback of the driver is recorded,
  \<open>_step_coro\<close> of this Task steps the task, and an exception ends the loop.
  \<open>_step_coro\<close> of another Task steps a task that is not part of this world: the call is
  recorded.\<close>

fun notify :: "callback call list \<Rightarrow> world \<Rightarrow> exc option \<times> world" where
  "notify [] w = (None, w)"
| "notify ((External n, args, kwargs) # cs) w =
     notify cs (w\<lparr>calls := calls w @ [(n, args, kwargs)]\<rparr>)"
| "notify ((Step_coro u, args, kwargs) # cs) w =
     (if u = uid w then
        (case step_coro args kwargs w of
           (None, w') \<Rightarrow> notify cs w'
         | (Some e, w') \<Rightarrow> (Some e, w'))
      else notify cs (w\<lparr>other_steps := other_steps w @ [(u, args, kwargs)]\<rparr>))"

definition events_set :: "nat \<Rightarrow> val list \<Rightarrow> kwargs \<Rightarrow> world \<Rightarrow> exc option \<times> world" where
  "events_set i args kwargs w =
     (case Event_set args kwargs (events w i) of
        (e, cs) \<Rightarrow> notify cs (w\<lparr>events := (events w)(i := e)\<rparr>))"

definition events_clear :: "nat \<Rightarrow> world \<Rightarrow> world" where
  "events_clear i w = w\<lparr>events := (events w)(i := Event_clear (events w i))\<rparr>"

definition events_add_callback :: "nat \<Rightarrow> callback \<Rightarrow> world \<Rightarrow> exc option \<times> world" where
  "events_add_callback i cb w =
     (case Event_add_callback cb (events w i) of
        Inl e \<Rightarrow> (Some e, w)
      | Inr (e, cs) \<Rightarrow> notify cs (w\<lparr>events := (events w)(i := e)\<rparr>))"

text \<open>\<open>task._event.add_callback\<close> with a callback of the driver.\<close>

definition event_add_callback :: "nat \<Rightarrow> world \<Rightarrow> exc option \<times> world" where
  "event_add_callback n w =
     (case Event_add_callback n (event w) of
        Inl e \<Rightarrow> (Some e, w)
      | Inr (e, cs) \<Rightarrow> (None, w\<lparr>event := e, calls := calls w @ cs\<rparr>))"

text \<open>What a driver can do with a task and the events around it, and a run of such
  operations; the driver catches what an operation raises and goes on.\<close>

datatype op =
    Op_start
  | Op_step_coro "val list" kwargs
  | Op_cancel
  | Op_suppress bool
  | Op_add_callback nat
  | Op_events_set nat "val list" kwargs
  | Op_events_clear nat
  | Op_events_add_callback nat callback

fun apply_op :: "op \<Rightarrow> world \<Rightarrow> exc option \<times> world" where
  "apply_op Op_start w = start Arg_task w"
| "apply_op (Op_step_coro args kwargs) w = step_coro args kwargs w"
| "apply_op Op_cancel w = cancel w"
| "apply_op (Op_suppress b) w = (None, w\<lparr>suppresses_exception := b\<rparr>)"
| "apply_op (Op_add_callback n) w = event_add_callback n w"
| "apply_op (Op_events_set i args kwargs) w = events_set i args kwargs w"
| "apply_op (Op_events_clear i) w = (None, events_clear i w)"
| "apply_op (Op_events_add_callback i cb) w = events_add_callback i cb w"

fun run_ops :: "op list \<Rightarrow> world \<Rightarrow> world" where
  "run_ops [] w = w"
| "run_ops (x # xs) w = run_ops xs (snd (apply_op x w))"

text \<open>The transitions of the state machine, and a history that follows them from
  \<open>CREATED\<close>.\<close>

fun forward :: "TaskState \<Rightarrow> TaskState \<Rightarrow> bool" where
  "forward CREATED STARTED = True"
| "forward STARTED DONE = True"
| "forward STARTED CANCELLED = True"
| "forward _ _ = False"

fun forward_path :: "TaskState list \<Rightarrow> bool" where
  "forward_path [] = True"
| "forward_path [s] = True"
| "forward_path (s # t # ss) = (forward s t \<and> forward_path (t # ss))"

text \<open>An environment with no event set and no waiter, for concrete runs.\<close>

definition env0 :: world where
  "env0 = \<lparr>name = [], uid = 0, root_coro = Coro_closed, state = CREATED, result = None,
            event = Event_init, cancel_called = False, userdata = VNone, exception = None,
            suppresses_exception = False, cancel_protection = 0,
            events = (\<lambda>i. Event_init), calls = [], other_steps = [], uid_iter = 0,
            received = [], state_log = []\<rparr>"

definition new_task :: "stmt list \<Rightarrow> world" where
  "new_task p =
     (case Task_init (Awaitable p) [] VNone env0 of Inr w \<Rightarrow> w | Inl e \<Rightarrow> env0)"

text \<open>The protection scopes a suspended computation is inside of, and those an outcome
  of a step leaves open.\<close>

fun open_scopes :: "item list \<Rightarrow> nat" where
  "open_scopes [] = 0"
| "open_scopes (Release # k) = Suc (open_scopes k)"
| "open_scopes (Do s # k) = open_scopes k"

definition left_open :: "outcome \<Rightarrow> nat" where
  "left_open out = (case out of Yield rq r k \<Rightarrow> open_scopes k | _ \<Rightarrow> 0)"

section \<open>Invariants\<close>

text \<open>What running the computation leaves alone: everything but \<open>_cancel_protection\<close>,
  \<open>received\<close> and a \<open>_cancel_called\<close> that was not yet set.\<close>

definition same_task :: "world \<Rightarrow> world \<Rightarrow> bool" where
  "same_task w w' =
     (name w' = name w \<and> uid w' = uid w \<and> root_coro w' = root_coro w \<and> state w' = state w
      \<and> result w' = result w \<and> event w' = event w \<and> userdata w' = userdata w
      \<and> exception w' = exception w \<and> suppresses_exception w' = suppresses_exception w
      \<and> events w' = events w \<and> calls w' = calls w \<and> other_steps w' = other_steps w
      \<and> uid_iter w' = uid_iter w
      \<and> state_log w' = state_log w \<and> (cancel_called w \<longrightarrow> cancel_called w'))"

text \<open>What holds of a task whenever the driver has control: its history of states is
  one of the four paths of the state machine and fits the state of its coroutine, the
  protection depth counts the open scopes, and the completion event has fired exactly
  when the task has ended.\<close>

definition task_inv :: "world \<Rightarrow> bool" where
  "task_inv w =
     (state w = last (state_log w) \<and> (state w = DONE \<longrightarrow> result w \<noteq> None)
      \<and> (case exception w of None \<Rightarrow> True | Some e \<Rightarrow> is_Exception e \<and> state w = CANCELLED)
      \<and> (case root_coro w of
            Coro_created p \<Rightarrow>
              state_log w = [CREATED] \<and> cancel_protection w = 0 \<and> \<not> cancel_called w
              \<and> \<not> ev_flag (event w)
          | Coro_running \<Rightarrow> False
          | Coro_suspended r k \<Rightarrow>
              state_log w = [CREATED, STARTED] \<and> cancel_protection w = int (open_scopes k)
              \<and> \<not> ev_flag (event w)
          | Coro_closed \<Rightarrow>
              cancel_protection w = 0
              \<and> (if ev_flag (event w)
                  then state_log w = [CREATED, STARTED, DONE]
                     \<or> state_log w = [CREATED, STARTED, CANCELLED]
                  else state_log w = [CREATED])))"

text \<open>A requested cancellation is not pending on an unprotected task.\<close>

definition settled :: "world \<Rightarrow> bool" where
  "settled w = (cancel_called w \<and> cancel_protection w = 0 \<longrightarrow> root_coro w = Coro_closed)"

text \<open>The history of states is only ever extended.\<close>

definition grows :: "world \<Rightarrow> world \<Rightarrow> bool" where
  "grows w w' = prefix (state_log w) (state_log w')"

definition good :: "world \<Rightarrow> bool" where
  "good w = (task_inv w \<and> settled w)"

text \<open>An operation that raised \<open>InvalidStateError\<close>.\<close>

definition fails_with_InvalidState :: "exc option \<times> world \<Rightarrow> bool" where
  "fails_with_InvalidState r = (case fst r of Some (InvalidStateError m) \<Rightarrow> True | _ \<Rightarrow> False)"

text \<open>Which events of the environment have fired, and with what payload, is the same in
  both worlds.\<close>

definition same_fired :: "world \<Rightarrow> world \<Rightarrow> bool" where
  "same_fired w w' =
     (\<forall>i. ev_flag (events w' i) = ev_flag (events w i)
          \<and> ev_value (events w' i) = ev_value (events w i))"

text \<open>The assignments of \<open>Event.set\<close> on the event \<open>i\<close> of the environment, before
  its loop.\<close>

definition fire :: "nat \<Rightarrow> val list \<Rightarrow> kwargs \<Rightarrow> world \<Rightarrow> world" where
  "fire i args kwargs w =
     w\<lparr>events := (events w)
          (i := (events w i)\<lparr>ev_flag := True, ev_value := Some (args, kwargs),
                              ev_step_coro_list := []\<rparr>)\<rparr>"

text \<open>
  From the words of the specification, for comparison with \<open>notify\<close>: "invokes every
  captured waiter with \<open>args\<close>, in the order they registered", each once, whatever the
  call of a waiter does.
\<close>

fun notify_each_once :: "callback call list \<Rightarrow> world \<Rightarrow> world" where
  "notify_each_once [] w = w"
| "notify_each_once ((External n, args, kwargs) # cs) w =
     notify_each_once cs (w\<lparr>calls := calls w @ [(n, args, kwargs)]\<rparr>)"
| "notify_each_once ((Step_coro u, args, kwargs) # cs) w =
     (if u = uid w then notify_each_once cs (snd (step_coro args kwargs w))
      else notify_each_once cs (w\<lparr>other_steps := other_steps w @ [(u, args, kwargs)]\<rparr>))"

section \<open>Properties of the step driver\<close>

lemma open_scopes_append: "open_scopes (map Do body @ k) = open_scopes k"
  by (induction body) simp_all

lemma unwind_eq: "unwind k w = w\<lparr>cancel_protection := cancel_protection w - int (open_scopes k)\<rparr>"
proof (induction k arbitrary: w)
  case Nil
  then show ?case by simp
next
  case (Cons x k)
  then show ?case by (cases x) simp_all
qed

lemma cancel_running:
  "root_coro w = Coro_running \<Longrightarrow> cancel w = (None, w\<lparr>cancel_called := True\<rparr>)"
  by (simp add: cancel_def is_cancellable_def Let_def)

lemma exec_char:
  "root_coro w = Coro_running \<Longrightarrow> exec k w = (out, w') \<Longrightarrow>
   same_task w w' \<and> received w' = received w
   \<and> cancel_protection w' = cancel_protection w - int (open_scopes k) + int (left_open out)"
proof (induction k w arbitrary: out w' rule: exec.induct)
  case (2 k w)
  from 2(1) [of out w'] 2(2,3) show ?case by (auto simp: same_task_def)
next
  case (8 k w)
  from 8(2) have c: "cancel w = (None, w\<lparr>cancel_called := True\<rparr>)" by (rule cancel_running)
  with 8(3) have "exec k (w\<lparr>cancel_called := True\<rparr>) = (out, w')" by simp
  from 8(1) [OF c [symmetric] refl _ this] 8(2) show ?case by (auto simp: same_task_def)
qed (auto simp: left_open_def unwind_eq same_task_def split: if_splits)

lemma resume_char:
  "root_coro w = Coro_running \<Longrightarrow> resume_with r k v w = (out, w') \<Longrightarrow>
   same_task w w'
   \<and> cancel_protection w' = cancel_protection w - int (open_scopes k) + int (left_open out)"
  by (cases r)
     (auto simp: await_value_def unwind_eq left_open_def [of "Raised e" for e] open_scopes_append
           same_task_def
           dest!: exec_char [rotated] split: sum.splits if_splits)

lemma grows_refl [simp]: "grows w w"
  by (simp add: grows_def)

lemma grows_trans: "grows w w1 \<Longrightarrow> grows w1 w2 \<Longrightarrow> grows w w2"
  by (auto simp: grows_def)

lemma wrapper_inv:
  assumes "state_log w = [CREATED, STARTED]" "state w = STARTED" "root_coro w = Coro_running"
    "\<not> ev_flag (event w)" "exception w = None"
    "cancel_protection w = int (left_open out)"
    "wrapper (out, w) = (s, w')"
  shows "task_inv w' \<and> grows w w'
    \<and> (case s of Yielded rq \<Rightarrow> (\<exists>r k. root_coro w' = Coro_suspended r k)
         | _ \<Rightarrow> root_coro w' = Coro_closed)"
  using assms
  by (cases out)
     (auto simp: wrapper_def task_inv_def grows_def left_open_def finally_set_def
        Event_set_def set_state_def split: if_splits)

lemma coro_send_inv:
  assumes "task_inv w" "coro_send v w = (s, w')"
  shows "task_inv w' \<and> grows w w'
    \<and> (case s of Yielded rq \<Rightarrow> (\<exists>r k. root_coro w' = Coro_suspended r k)
         | StopIteration \<Rightarrow> root_coro w' = Coro_closed
         | Raises e \<Rightarrow> root_coro w' = Coro_closed \<or> w' = w)"
proof (cases "root_coro w")
  case (Coro_created p)
  show ?thesis
  proof (cases "v = None")
    case True
    let ?w0 = "set_state STARTED (w\<lparr>root_coro := Coro_running\<rparr>)"
    obtain out w1 where e: "exec (map Do p) ?w0 = (out, w1)" by force
    have r: "root_coro ?w0 = Coro_running" by (simp add: set_state_def)
    note c = exec_char [OF r e]
    from assms(2) Coro_created True e have wr: "wrapper (out, w1) = (s, w')"
      by (simp add: coro_send_def)
    have "task_inv w' \<and> grows w1 w'
      \<and> (case s of Yielded rq \<Rightarrow> (\<exists>r k. root_coro w' = Coro_suspended r k)
           | _ \<Rightarrow> root_coro w' = Coro_closed)"
      using c assms(1) Coro_created
      by (intro wrapper_inv [OF _ _ _ _ _ _ wr])
         (auto simp: same_task_def task_inv_def set_state_def open_scopes_append [of p "[]", simplified]
               split: option.splits)
    moreover have "grows w w1"
      using c by (auto simp: same_task_def grows_def set_state_def)
    ultimately show ?thesis
      by (auto intro: grows_trans split: sent.splits)
  next
    case False
    with assms Coro_created show ?thesis by (auto simp: coro_send_def)
  qed
next
  case Coro_running
  with assms show ?thesis by (auto simp: coro_send_def task_inv_def)
next
  case (Coro_suspended r k)
  let ?w0 = "w\<lparr>root_coro := Coro_running\<rparr>"
  obtain out w1 where e: "resume_with r k v ?w0 = (out, w1)" by force
  have r: "root_coro ?w0 = Coro_running" by simp
  note c = resume_char [OF r e]
  from assms(2) Coro_suspended e have wr: "wrapper (out, w1) = (s, w')"
    by (simp add: coro_send_def)
  have "task_inv w' \<and> grows w1 w'
    \<and> (case s of Yielded rq \<Rightarrow> (\<exists>r k. root_coro w' = Coro_suspended r k)
         | _ \<Rightarrow> root_coro w' = Coro_closed)"
    using c assms(1) Coro_suspended
    by (intro wrapper_inv [OF _ _ _ _ _ _ wr])
       (auto simp: same_task_def task_inv_def split: option.splits)
  moreover have "grows w w1"
    using c by (auto simp: same_task_def grows_def)
  ultimately show ?thesis
    by (auto intro: grows_trans split: sent.splits)
next
  case Coro_closed
  with assms show ?thesis by (auto simp: coro_send_def)
qed

lemma coro_close_inv:
  assumes "task_inv w" "coro_close w = (x, w')"
  shows "task_inv w' \<and> grows w w' \<and> root_coro w' = Coro_closed \<and> x = None"
proof (cases "root_coro w")
  case (Coro_suspended r k)
  with assms show ?thesis
    by (auto simp: coro_close_def wrapper_def unwind_eq task_inv_def grows_def finally_set_def
          Event_set_def set_state_def split: option.splits)
qed (use assms in \<open>auto simp: coro_close_def task_inv_def grows_def split: if_splits option.splits\<close>)

lemma check_cancel_inv:
  assumes "task_inv w" "check_cancel w = (x, w')"
  shows "task_inv w' \<and> grows w w' \<and> settled w' \<and> x = None"
proof (cases "cancel_called w \<and> is_cancellable w")
  case True
  with assms coro_close_inv [of w x w'] show ?thesis
    by (auto simp: check_cancel_def actual_cancel_def settled_def)
next
  case False
  with assms show ?thesis
    by (auto simp: check_cancel_def settled_def is_cancellable_def task_inv_def
          split: coroutine.splits)
qed

lemma cancel_inv:
  assumes "task_inv w" "cancel w = (x, w')"
  shows "task_inv w' \<and> grows w w' \<and> settled w' \<and> x = None"
proof (cases "root_coro w")
  case (Coro_suspended r k)
  with assms show ?thesis
    by (auto simp: cancel_def Let_def is_cancellable_def actual_cancel_def settled_def
          coro_close_def wrapper_def unwind_eq task_inv_def grows_def finally_set_def
          Event_set_def set_state_def split: option.splits if_splits)
qed (use assms in \<open>auto simp: cancel_def Let_def is_cancellable_def actual_cancel_def settled_def
          coro_close_def task_inv_def grows_def split: if_splits option.splits\<close>)

lemma step_coro_unfold:
  "step_coro args kwargs w =
     (if getcoroutinestate (root_coro w) \<noteq> CORO_CLOSED then
        (case coro_send (Some (args, kwargs)) w of
           (StopIteration, w1) \<Rightarrow> (None, w1)
         | (Raises e, w1) \<Rightarrow> (Some e, w1)
         | (Yielded rq, w1) \<Rightarrow>
             (case call_request rq w1 of
                (Some e, w2) \<Rightarrow> (Some e, w2)
              | (None, w2) \<Rightarrow> check_cancel w2))
      else check_cancel w)"
  by (subst step_coro.simps) (auto simp: call_request_def split: prod.splits sent.splits)

lemma append_waiter_inv:
  "task_inv w \<Longrightarrow> task_inv (append_waiter i w) \<and> grows w (append_waiter i w)"
  by (cases "root_coro w"; cases "exception w")
     (auto simp: task_inv_def append_waiter_def grows_def split: if_splits)

lemma settled_closed: "root_coro w = Coro_closed \<Longrightarrow> settled w"
  by (simp add: settled_def)

lemma settled_created: "task_inv w \<Longrightarrow> root_coro w = Coro_created p \<Longrightarrow> settled w"
  by (simp add: settled_def task_inv_def)

text \<open>What one step leaves behind, given what the request it called left behind.\<close>

lemma after_send:
  assumes inv: "task_inv w"
    and s: "coro_send v w = (s, w1)"
    and rq: "\<And>rq y w2. s = Yielded rq \<Longrightarrow> call_request rq w1 = (y, w2) \<Longrightarrow>
               task_inv w2 \<and> grows w1 w2 \<and> (y \<noteq> None \<longrightarrow> settled w2)"
    and r: "(case (s, w1) of
             (StopIteration, w1) \<Rightarrow> (None, w1)
           | (Raises e, w1) \<Rightarrow> (Some e, w1)
           | (Yielded rq, w1) \<Rightarrow>
               (case call_request rq w1 of
                  (Some e, w2) \<Rightarrow> (Some e, w2)
                | (None, w2) \<Rightarrow> check_cancel w2)) = (x, w')"
  shows "task_inv w' \<and> grows w w' \<and> settled w'"
proof -
  note i = coro_send_inv [OF inv s]
  show ?thesis
  proof (cases s)
    case (Yielded q)
    obtain y w2 where c: "call_request q w1 = (y, w2)" by force
    note j = rq [OF Yielded c]
    show ?thesis
    proof (cases y)
      case None
      with r Yielded c have "check_cancel w2 = (x, w')" by simp
      from check_cancel_inv [OF _ this] j i show ?thesis
        by (blast intro: grows_trans)
    next
      case (Some e)
      with r Yielded c have "w' = w2" by simp
      with j i Some show ?thesis by (auto intro: grows_trans)
    qed
  next
    case StopIteration
    with r i show ?thesis by (auto intro: settled_closed)
  next
    case (Raises e)
    with r have w': "w' = w1" by simp
    from i Raises have "root_coro w1 = Coro_closed \<or> w1 = w" by simp
    then show ?thesis
    proof
      assume "root_coro w1 = Coro_closed"
      with i w' show ?thesis by (auto intro: settled_closed)
    next
      assume e: "w1 = w"
      have "settled w"
      proof (cases "root_coro w")
        case (Coro_suspended r0 k)
        with s Raises e show ?thesis
          by (auto simp: coro_send_def wrapper_def split: prod.splits outcome.splits if_splits)
      qed (use inv in \<open>auto simp: settled_def task_inv_def\<close>)
      with e w' inv show ?thesis by simp
    qed
  qed
qed

lemma step_coro_inv:
  "task_inv w \<Longrightarrow> step_coro args kwargs w = (x, w') \<Longrightarrow>
   task_inv w' \<and> grows w w' \<and> settled w'"
proof (induction args kwargs w arbitrary: x w' rule: step_coro.induct)
  case (1 args kwargs w)
  show ?case
  proof (cases "getcoroutinestate (root_coro w) \<noteq> CORO_CLOSED")
    case False
    with 1(4) have "check_cancel w = (x, w')" by (simp add: step_coro_unfold)
    from check_cancel_inv [OF 1(3) this] show ?thesis by blast
  next
    case True
    obtain s w1 where s: "coro_send (Some (args, kwargs)) w = (s, w1)" by force
    have w1: "task_inv w1" using coro_send_inv [OF 1(3) s] by blast
    have rq: "task_inv w2 \<and> grows w1 w2 \<and> (y \<noteq> None \<longrightarrow> settled w2)"
      if "s = Yielded rq" "call_request rq w1 = (y, w2)" for rq y w2
    proof (cases rq)
      case Req_ignore
      with that w1 show ?thesis by (simp add: call_request_def)
    next
      case Req_call
      with that have "step_coro [] [] w1 = (y, w2)" by (simp add: call_request_def)
      from 1(1) [OF True s [symmetric] that(1) Req_call w1 this] show ?thesis by blast
    next
      case Req_call_self
      with that have "step_coro [VStep_coro] [] w1 = (y, w2)" by (simp add: call_request_def)
      from 1(2) [OF True s [symmetric] that(1) Req_call_self w1 this] show ?thesis by blast
    next
      case (Req_append i)
      with that append_waiter_inv [OF w1, of i] show ?thesis by (auto simp: call_request_def)
    qed
    from 1(4) True s have r: "(case (s, w1) of
             (StopIteration, w1) \<Rightarrow> (None, w1)
           | (Raises e, w1) \<Rightarrow> (Some e, w1)
           | (Yielded rq, w1) \<Rightarrow>
               (case call_request rq w1 of
                  (Some e, w2) \<Rightarrow> (Some e, w2)
                | (None, w2) \<Rightarrow> check_cancel w2)) = (x, w')"
      by (simp add: step_coro_unfold)
    show ?thesis by (rule after_send [OF 1(3) s _ r]) (rule rq)
  qed
qed

lemma call_request_inv:
  "task_inv w \<Longrightarrow> call_request rq w = (y, w2) \<Longrightarrow>
   task_inv w2 \<and> grows w w2 \<and> (y \<noteq> None \<longrightarrow> settled w2)"
  using step_coro_inv [of w _ _ y w2] append_waiter_inv [of w]
  by (cases rq) (auto simp: call_request_def)

lemma first_step_inv:
  assumes "task_inv w" "first_step w = (x, w')"
  shows "task_inv w' \<and> grows w w' \<and> settled w'"
proof -
  obtain s w1 where s: "coro_send None w = (s, w1)" by force
  have w1: "task_inv w1" using coro_send_inv [OF assms(1) s] by blast
  from assms(2) s have r: "(case (s, w1) of
             (StopIteration, w1) \<Rightarrow> (None, w1)
           | (Raises e, w1) \<Rightarrow> (Some e, w1)
           | (Yielded rq, w1) \<Rightarrow>
               (case call_request rq w1 of
                  (Some e, w2) \<Rightarrow> (Some e, w2)
                | (None, w2) \<Rightarrow> check_cancel w2)) = (x, w')"
    by (simp add: first_step_def)
  show ?thesis by (rule after_send [OF assms(1) s _ r]) (rule call_request_inv [OF w1])
qed

lemma env_update_inv [simp]:
  "task_inv (w\<lparr>events := f\<rparr>) = task_inv w"
  "task_inv (w\<lparr>calls := c\<rparr>) = task_inv w"
  "task_inv (w\<lparr>other_steps := c\<rparr>) = task_inv w"
  "task_inv (w\<lparr>suppresses_exception := b\<rparr>) = task_inv w"
  "settled (w\<lparr>events := f\<rparr>) = settled w"
  "settled (w\<lparr>calls := c\<rparr>) = settled w"
  "settled (w\<lparr>other_steps := c\<rparr>) = settled w"
  "settled (w\<lparr>suppresses_exception := b\<rparr>) = settled w"
  "grows v (w\<lparr>events := f\<rparr>) = grows v w"
  "grows v (w\<lparr>calls := c\<rparr>) = grows v w"
  "grows v (w\<lparr>other_steps := c\<rparr>) = grows v w"
  "grows v (w\<lparr>suppresses_exception := b\<rparr>) = grows v w"
  "grows (w\<lparr>events := f\<rparr>) v = grows w v"
  "grows (w\<lparr>calls := c\<rparr>) v = grows w v"
  "grows (w\<lparr>other_steps := c\<rparr>) v = grows w v"
  by (auto simp: task_inv_def settled_def grows_def split: option.splits coroutine.splits)

lemma start_inv:
  assumes "good w" "start Arg_task w = (x, w')"
  shows "good w' \<and> grows w w'"
proof (cases "state w = CREATED")
  case True
  with assms(2) have "first_step w = (x, w')" by (simp add: start_def)
  from first_step_inv [OF _ this] assms(1) show ?thesis by (simp add: good_def)
next
  case False
  with assms show ?thesis by (simp add: start_def)
qed

lemma notify_inv:
  "good w \<Longrightarrow> notify cs w = (x, w') \<Longrightarrow> good w' \<and> grows w w'"
proof (induction cs w arbitrary: x w' rule: notify.induct)
  case (1 w)
  then show ?case by simp
next
  case (2 n args kwargs cs w)
  from 2(1) [of x w'] 2(2,3) show ?case by (simp add: good_def)
next
  case (3 u args kwargs cs w)
  show ?case
  proof (cases "u = uid w")
    case True
    obtain y w1 where s: "step_coro args kwargs w = (y, w1)" by force
    from step_coro_inv [OF _ s] 3(3) have g: "good w1" "grows w w1" by (simp_all add: good_def)
    show ?thesis
    proof (cases y)
      case None
      with 3(4) s True have "notify cs w1 = (x, w')" by simp
      from 3(1) [OF True s [symmetric] None g(1) this] g(2) show ?thesis
        by (blast intro: grows_trans)
    next
      case (Some e)
      with 3(4) s g True show ?thesis by simp
    qed
  next
    case False
    with 3(2) [of x w'] 3(3,4) show ?thesis by (simp add: good_def)
  qed
qed

lemma event_add_callback_inv:
  assumes "good w" "event_add_callback n w = (x, w')"
  shows "good w' \<and> grows w w'"
  using assms
  by (cases "root_coro w"; cases "exception w")
     (auto simp: event_add_callback_def Event_add_callback_def good_def task_inv_def settled_def
        grows_def split: if_splits option.splits)

lemma apply_op_inv:
  assumes "good w" "apply_op x w = (y, w')"
  shows "good w' \<and> grows w w'"
proof (cases x)
  case Op_start
  with assms start_inv show ?thesis by simp
next
  case (Op_step_coro args kwargs)
  with assms step_coro_inv [of w args kwargs y w'] show ?thesis by (simp add: good_def)
next
  case Op_cancel
  with assms cancel_inv [of w y w'] show ?thesis by (simp add: good_def)
next
  case (Op_suppress b)
  with assms show ?thesis by (auto simp: good_def)
next
  case (Op_add_callback n)
  with assms event_add_callback_inv show ?thesis by simp
next
  case (Op_events_set i args kwargs)
  obtain e cs where e: "Event_set args kwargs (events w i) = (e, cs)" by force
  with assms Op_events_set have "notify cs (w\<lparr>events := (events w)(i := e)\<rparr>) = (y, w')"
    by (simp add: events_set_def)
  from notify_inv [OF _ this] assms(1) show ?thesis by (simp add: good_def)
next
  case (Op_events_clear i)
  with assms show ?thesis by (auto simp: good_def events_clear_def)
next
  case (Op_events_add_callback i cb)
  show ?thesis
  proof (cases "Event_add_callback cb (events w i)")
    case (Inl e)
    with assms Op_events_add_callback show ?thesis by (simp add: events_add_callback_def)
  next
    case (Inr p)
    obtain e cs where p: "p = (e, cs)" by force
    with Inr assms Op_events_add_callback
    have "notify cs (w\<lparr>events := (events w)(i := e)\<rparr>) = (y, w')"
      by (simp add: events_add_callback_def)
    from notify_inv [OF _ this] assms(1) show ?thesis by (simp add: good_def)
  qed
qed

lemma run_ops_inv: "good w \<Longrightarrow> good (run_ops ops w) \<and> grows w (run_ops ops w)"
proof (induction ops arbitrary: w)
  case Nil
  then show ?case by simp
next
  case (Cons x ops)
  obtain y w1 where a: "apply_op x w = (y, w1)" by force
  from apply_op_inv [OF Cons(2) a] Cons(1) [of w1] a show ?case
    by (auto intro: grows_trans)
qed

lemma run_ops_append: "run_ops (xs @ ys) w = run_ops ys (run_ops xs w)"
  by (induction xs arbitrary: w) simp_all

lemma Task_init_good: "Task_init (Awaitable p) nm ud env = Inr w \<Longrightarrow> good w"
  by (auto simp: Task_init_def good_def task_inv_def settled_def Event_init_def)

lemma inv_shapes:
  assumes "task_inv w"
  shows "state_log w = [CREATED] \<or> state_log w = [CREATED, STARTED]
    \<or> state_log w = [CREATED, STARTED, DONE] \<or> state_log w = [CREATED, STARTED, CANCELLED]"
  using assms by (cases "root_coro w") (auto simp: task_inv_def split: if_splits)

lemma reachable_good:
  "Task_init (Awaitable p) nm ud env = Inr w0 \<Longrightarrow> good (run_ops ops w0)"
  using run_ops_inv [OF Task_init_good] by blast

text \<open>A step of the task never sets or clears an event of the environment: it can only
  add itself to the waiters.\<close>

lemma wrapper_events: "wrapper (out, w) = (s, w') \<Longrightarrow> events w' = events w"
  by (cases out)
     (auto simp: wrapper_def finally_set_def Event_set_def set_state_def split: if_splits)

lemma coro_close_events: "coro_close w = (x, w') \<Longrightarrow> events w' = events w"
  by (cases "root_coro w")
     (auto simp: coro_close_def unwind_eq split: prod.splits sent.splits exc.splits
           dest!: wrapper_events)

lemma cancel_events: "cancel w = (x, w') \<Longrightarrow> events w' = events w"
  by (auto simp: cancel_def Let_def actual_cancel_def split: if_splits dest!: coro_close_events)

lemma check_cancel_events: "check_cancel w = (x, w') \<Longrightarrow> events w' = events w"
  by (auto simp: check_cancel_def actual_cancel_def split: if_splits dest!: coro_close_events)

lemma exec_events: "exec k w = (out, w') \<Longrightarrow> events w' = events w"
proof (induction k w arbitrary: out w' rule: exec.induct)
  case (8 k w)
  obtain x w1 where c: "cancel w = (x, w1)" by force
  show ?case
  proof (cases x)
    case None
    with 8(2) c have "exec k w1 = (out, w')" by simp
    from 8(1) [OF c [symmetric] None this] cancel_events [OF c] show ?thesis by simp
  next
    case (Some e)
    with 8(2) c cancel_events [OF c] show ?thesis by (auto simp: unwind_eq)
  qed
qed (auto simp: unwind_eq split: if_splits)

lemma resume_events: "resume_with r k v w = (out, w') \<Longrightarrow> events w' = events w"
  by (cases r)
     (auto simp: await_value_def unwind_eq split: sum.splits if_splits dest!: exec_events)

lemma wrapper_events_snd: "wrapper ow = (s, w') \<Longrightarrow> events w' = events (snd ow)"
  by (cases ow) (auto dest: wrapper_events)

lemma exec_events_snd [simp]: "events (snd (exec k w)) = events w"
  using exec_events [of k w] by (cases "exec k w") simp

lemma resume_events_snd [simp]: "events (snd (resume_with r k v w)) = events w"
  using resume_events [of r k v w] by (cases "resume_with r k v w") simp

lemma coro_send_events: "coro_send v w = (s, w') \<Longrightarrow> events w' = events w"
  by (cases "root_coro w")
     (auto simp: coro_send_def set_state_def split: if_splits dest!: wrapper_events_snd)

lemma same_fired_refl [simp]: "same_fired w w"
  by (simp add: same_fired_def)

lemma same_fired_trans: "same_fired w w1 \<Longrightarrow> same_fired w1 w2 \<Longrightarrow> same_fired w w2"
  by (simp add: same_fired_def)

lemma same_fired_events: "events w' = events w \<Longrightarrow> same_fired w w'"
  by (simp add: same_fired_def)

lemma same_fired_append: "same_fired w (append_waiter i w)"
  by (simp add: same_fired_def append_waiter_def)

lemma step_coro_fired: "step_coro args kwargs w = (x, w') \<Longrightarrow> same_fired w w'"
proof (induction args kwargs w arbitrary: x w' rule: step_coro.induct)
  case (1 args kwargs w)
  show ?case
  proof (cases "getcoroutinestate (root_coro w) \<noteq> CORO_CLOSED")
    case False
    with 1(3) have "check_cancel w = (x, w')" by (simp add: step_coro_unfold)
    then show ?thesis by (intro same_fired_events check_cancel_events)
  next
    case True
    obtain s w1 where s: "coro_send (Some (args, kwargs)) w = (s, w1)" by force
    have w1: "same_fired w w1" using coro_send_events [OF s] by (rule same_fired_events)
    show ?thesis
    proof (cases s)
      case (Yielded rq)
      obtain y w2 where c: "call_request rq w1 = (y, w2)" by force
      have w2: "same_fired w1 w2"
      proof (cases rq)
        case Req_ignore
        with c show ?thesis by (simp add: call_request_def)
      next
        case Req_call
        with c have "step_coro [] [] w1 = (y, w2)" by (simp add: call_request_def)
        from 1(1) [OF True s [symmetric] Yielded Req_call this] show ?thesis .
      next
        case Req_call_self
        with c have "step_coro [VStep_coro] [] w1 = (y, w2)" by (simp add: call_request_def)
        from 1(2) [OF True s [symmetric] Yielded Req_call_self this] show ?thesis .
      next
        case (Req_append i)
        with c same_fired_append [of w1 i] show ?thesis by (auto simp: call_request_def)
      qed
      show ?thesis
      proof (cases y)
        case None
        with 1(3) True s Yielded c have "check_cancel w2 = (x, w')"
          by (simp add: step_coro_unfold)
        from check_cancel_events [OF this] have "same_fired w2 w'" by (rule same_fired_events)
        with w1 w2 show ?thesis by (blast intro: same_fired_trans)
      next
        case (Some e)
        with 1(3) True s Yielded c have "w' = w2" by (simp add: step_coro_unfold)
        with w1 w2 show ?thesis by (blast intro: same_fired_trans)
      qed
    next
      case StopIteration
      with 1(3) True s have "w' = w1" by (simp add: step_coro_unfold)
      with w1 show ?thesis by simp
    next
      case (Raises e)
      with 1(3) True s have "w' = w1" by (simp add: step_coro_unfold)
      with w1 show ?thesis by simp
    qed
  qed
qed

lemma notify_fired: "notify cs w = (x, w') \<Longrightarrow> same_fired w w'"
proof (induction cs w arbitrary: x w' rule: notify.induct)
  case (1 w)
  then show ?case by simp
next
  case (2 n args kwargs cs w)
  from 2(1) [of x w'] 2(2) show ?case by (simp add: same_fired_def)
next
  case (3 u args kwargs cs w)
  show ?case
  proof (cases "u = uid w")
    case True
    obtain y w1 where s: "step_coro args kwargs w = (y, w1)" by force
    note f = step_coro_fired [OF s]
    show ?thesis
    proof (cases y)
      case None
      with 3(3) s True have "notify cs w1 = (x, w')" by simp
      from 3(1) [OF True s [symmetric] None this] f show ?thesis
        by (blast intro: same_fired_trans)
    next
      case (Some e)
      with 3(3) s f True show ?thesis by simp
    qed
  next
    case False
    with 3(2) [of x w'] 3(3) show ?thesis by (simp add: same_fired_def)
  qed
qed

lemma notify_External:
  "notify (map (\<lambda>n. (External n, a, ka)) ns) w
   = (None, w\<lparr>calls := calls w @ map (\<lambda>n. (n, a, ka)) ns\<rparr>)"
  by (induction ns arbitrary: w) simp_all

text \<open>The loop of \<open>Event.set\<close> calls a first part of the waiters, each once and in order:
  all of them when it returns normally, and up to the one that raised otherwise.\<close>

lemma notify_prefix:
  "\<exists>m\<le>length cs. snd (notify cs w) = notify_each_once (take m cs) w
      \<and> (fst (notify cs w) = None \<longrightarrow> m = length cs)"
proof (induction cs w rule: notify.induct)
  case (1 w)
  then show ?case by simp
next
  case (2 n args kwargs cs w)
  let ?w = "w\<lparr>calls := calls w @ [(n, args, kwargs)]\<rparr>"
  from 2 obtain m where mm: "m \<le> length cs
    \<and> snd (notify cs ?w) = notify_each_once (take m cs) ?w
    \<and> (fst (notify cs ?w) = None \<longrightarrow> m = length cs)"
    by (rule exE)
  from mm have m: "m \<le> length cs"
    "snd (notify cs ?w) = notify_each_once (take m cs) ?w"
    "fst (notify cs ?w) = None \<longrightarrow> m = length cs"
    by (rule conjunct1, rule conjunct2 [THEN conjunct1], rule conjunct2 [THEN conjunct2])
  have a: "Suc m \<le> length ((External n, args, kwargs) # cs)" using m(1) by simp
  have b: "snd (notify ((External n, args, kwargs) # cs) w)
    = notify_each_once (take (Suc m) ((External n, args, kwargs) # cs)) w"
    using m(2) by (simp only: notify.simps notify_each_once.simps take_Suc_Cons)
  have c: "fst (notify ((External n, args, kwargs) # cs) w) = None
    \<longrightarrow> Suc m = length ((External n, args, kwargs) # cs)"
    using m(3) by (simp only: notify.simps list.size) simp
  show ?case by (intro exI [of _ "Suc m"] conjI a b c)
next
  case (3 u args kwargs cs w)
  show ?case
  proof (cases "u = uid w")
    case True
    obtain y w1 where s: "step_coro args kwargs w = (y, w1)" by force
    show ?thesis
    proof (cases y)
      case None
      from 3(1) [OF True s [symmetric] None] obtain m where mm: "m \<le> length cs
    \<and> snd (notify cs w1) = notify_each_once (take m cs) w1
    \<and> (fst (notify cs w1) = None \<longrightarrow> m = length cs)"
    by (rule exE)
  from mm have m: "m \<le> length cs"
    "snd (notify cs w1) = notify_each_once (take m cs) w1"
    "fst (notify cs w1) = None \<longrightarrow> m = length cs"
    by (rule conjunct1, rule conjunct2 [THEN conjunct1], rule conjunct2 [THEN conjunct2])
      from True s None have n: "notify ((Step_coro u, args, kwargs) # cs) w = notify cs w1"
        by simp
      from True s have e: "notify_each_once (take (Suc m) ((Step_coro u, args, kwargs) # cs)) w
        = notify_each_once (take m cs) w1"
        by simp
      have a: "Suc m \<le> length ((Step_coro u, args, kwargs) # cs)" using m(1) by simp
      have "snd (notify ((Step_coro u, args, kwargs) # cs) w) = snd (notify cs w1)"
        by (simp only: n)
      also have "\<dots> = notify_each_once (take m cs) w1" by (rule m(2))
      also have "\<dots> = notify_each_once (take (Suc m) ((Step_coro u, args, kwargs) # cs)) w"
        by (rule e [symmetric])
      finally have b: "snd (notify ((Step_coro u, args, kwargs) # cs) w)
        = notify_each_once (take (Suc m) ((Step_coro u, args, kwargs) # cs)) w" .
      have "fst (notify cs w1) = None
        \<longrightarrow> Suc m = length ((Step_coro u, args, kwargs) # cs)"
        using m(3) by simp
      then have c: "fst (notify ((Step_coro u, args, kwargs) # cs) w) = None
        \<longrightarrow> Suc m = length ((Step_coro u, args, kwargs) # cs)"
        by (simp only: n)
      show ?thesis by (intro exI [of _ "Suc m"] conjI a b c)
    next
      case (Some e)
      with True s have n: "notify ((Step_coro u, args, kwargs) # cs) w = (Some e, w1)"
        by simp
      from True s have "notify_each_once (take (Suc 0) ((Step_coro u, args, kwargs) # cs)) w = w1"
        by simp
      with n have a: "Suc 0 \<le> length ((Step_coro u, args, kwargs) # cs)"
        and b: "snd (notify ((Step_coro u, args, kwargs) # cs) w)
          = notify_each_once (take (Suc 0) ((Step_coro u, args, kwargs) # cs)) w"
        and c: "fst (notify ((Step_coro u, args, kwargs) # cs) w) = None
          \<longrightarrow> Suc 0 = length ((Step_coro u, args, kwargs) # cs)"
        by (simp_all only: fst_conv snd_conv list.size) simp_all
      show ?thesis by (intro exI [of _ "Suc 0"] conjI a b c)
    qed
  next
    case False
    let ?w = "w\<lparr>other_steps := other_steps w @ [(u, args, kwargs)]\<rparr>"
    from 3(2) [OF False] obtain m where mm: "m \<le> length cs
    \<and> snd (notify cs ?w) = notify_each_once (take m cs) ?w
    \<and> (fst (notify cs ?w) = None \<longrightarrow> m = length cs)"
    by (rule exE)
  from mm have m: "m \<le> length cs"
    "snd (notify cs ?w) = notify_each_once (take m cs) ?w"
    "fst (notify cs ?w) = None \<longrightarrow> m = length cs"
    by (rule conjunct1, rule conjunct2 [THEN conjunct1], rule conjunct2 [THEN conjunct2])
    from False have n: "notify ((Step_coro u, args, kwargs) # cs) w = notify cs ?w"
      by simp
    from False have e: "notify_each_once (take (Suc m) ((Step_coro u, args, kwargs) # cs)) w
      = notify_each_once (take m cs) ?w"
      by simp
    have a: "Suc m \<le> length ((Step_coro u, args, kwargs) # cs)" using m(1) by simp
    have "snd (notify ((Step_coro u, args, kwargs) # cs) w) = snd (notify cs ?w)"
      by (simp only: n)
    also have "\<dots> = notify_each_once (take m cs) ?w" by (rule m(2))
    also have "\<dots> = notify_each_once (take (Suc m) ((Step_coro u, args, kwargs) # cs)) w"
      by (rule e [symmetric])
    finally have b: "snd (notify ((Step_coro u, args, kwargs) # cs) w)
      = notify_each_once (take (Suc m) ((Step_coro u, args, kwargs) # cs)) w" .
    have "fst (notify cs ?w) = None
      \<longrightarrow> Suc m = length ((Step_coro u, args, kwargs) # cs)"
      using m(3) by simp
    then have c: "fst (notify ((Step_coro u, args, kwargs) # cs) w) = None
      \<longrightarrow> Suc m = length ((Step_coro u, args, kwargs) # cs)"
      by (simp only: n)
    show ?thesis by (intro exI [of _ "Suc m"] conjI a b c)
  qed
qed

text \<open>A Task made by \<open>start\<close> from an awaitable is not resumed by what the Task before it
  left on an event: that call goes to the other Task.\<close>

lemma start_awaitable_other_task:
  "uid (snd (start (Arg_awaitable [Sleep_forever]) (run_ops [Op_start] (new_task [Event_wait 0]))))
     = 1
   \<and> ev_step_coro_list (events
        (snd (start (Arg_awaitable [Sleep_forever]) (run_ops [Op_start] (new_task [Event_wait 0]))))
        0) = [Step_coro 0]
   \<and> received (snd (events_set 0 [VInt 1] []
        (snd (start (Arg_awaitable [Sleep_forever])
               (run_ops [Op_start] (new_task [Event_wait 0])))))) = []
   \<and> state (snd (events_set 0 [VInt 1] []
        (snd (start (Arg_awaitable [Sleep_forever])
               (run_ops [Op_start] (new_task [Event_wait 0])))))) = STARTED
   \<and> other_steps (snd (events_set 0 [VInt 1] []
        (snd (start (Arg_awaitable [Sleep_forever])
               (run_ops [Op_start] (new_task [Event_wait 0])))))) = [(0, [VInt 1], [])]"
  by code_simp

section \<open>The claims\<close>

text \<open>
  Claim C1. For a task made by \<open>Task.__init__\<close> and driven by any sequence of operations
  (start, step, cancel, and the operations on events), the values assigned to \<open>_state\<close>
  form a path \<open>CREATED\<close>, \<open>STARTED\<close>, then \<open>DONE\<close> or \<open>CANCELLED\<close>: the history starts
  at \<open>CREATED\<close>, each assignment follows a transition of the state machine (so \<open>STARTED\<close>
  is never skipped and nothing moves backward), the state is the last value assigned,
  further operations only extend the history, and a task in \<open>DONE\<close> or \<open>CANCELLED\<close> keeps
  its state whatever is done next.
\<close>

theorem state_moves_forward:
  assumes "Task_init (Awaitable p) nm ud env = Inr w0"
  shows "hd (state_log (run_ops ops w0)) = CREATED
    \<and> forward_path (state_log (run_ops ops w0))
    \<and> state (run_ops ops w0) = last (state_log (run_ops ops w0))
    \<and> prefix (state_log (run_ops ops w0)) (state_log (run_ops (ops @ ops2) w0))
    \<and> (state (run_ops ops w0) \<in> ENDED
        \<longrightarrow> state (run_ops (ops @ ops2) w0) = state (run_ops ops w0))"
proof -
  let ?w = "run_ops ops w0" and ?w' = "run_ops (ops @ ops2) w0"
  have g: "good ?w" using assms by (rule reachable_good)
  then have g': "good ?w'" and p: "grows ?w ?w'"
    using run_ops_inv [of ?w ops2] by (simp_all add: run_ops_append)
  from g have l: "state ?w = last (state_log ?w)" by (simp add: good_def task_inv_def)
  from g' have l': "state ?w' = last (state_log ?w')" by (simp add: good_def task_inv_def)
  from g have s: "state_log ?w = [CREATED] \<or> state_log ?w = [CREATED, STARTED]
    \<or> state_log ?w = [CREATED, STARTED, DONE] \<or> state_log ?w = [CREATED, STARTED, CANCELLED]"
    by (simp add: good_def inv_shapes)
  from g' have s': "state_log ?w' = [CREATED] \<or> state_log ?w' = [CREATED, STARTED]
    \<or> state_log ?w' = [CREATED, STARTED, DONE] \<or> state_log ?w' = [CREATED, STARTED, CANCELLED]"
    by (simp add: good_def inv_shapes)
  from s have "hd (state_log ?w) = CREATED" "forward_path (state_log ?w)" by auto
  moreover from p have "prefix (state_log ?w) (state_log ?w')" by (simp add: grows_def)
  moreover from this s s' l l' have "state ?w \<in> ENDED \<longrightarrow> state ?w' = state ?w"
    by (auto simp: ENDED_def)
  ultimately show ?thesis using l by blast
qed

theorem state_moves_forward_witness:
  "forward_path (state_log (run_ops [Op_start, Op_cancel] (new_task [Sleep_forever])))
   \<and> state (run_ops [Op_start, Op_cancel] (new_task [Sleep_forever])) \<in> ENDED
   \<and> state (run_ops ([Op_start, Op_cancel] @ [Op_start, Op_step_coro [] []])
        (new_task [Sleep_forever])) = CANCELLED"
proof -
  have i: "Task_init (Awaitable [Sleep_forever]) [] VNone env0 = Inr (new_task [Sleep_forever])"
    by (simp add: new_task_def Task_init_def)
  have c: "state (run_ops [Op_start, Op_cancel] (new_task [Sleep_forever])) = CANCELLED"
    by code_simp
  from state_moves_forward [OF i, of "[Op_start, Op_cancel]" "[Op_start, Op_step_coro [] []]"] c
  show ?thesis by (simp add: ENDED_def)
qed

text \<open>
  Claim C2. The claim says that \<open>cancel()\<close> on a task that was never started drives it to
  \<open>CANCELLED\<close> and fires the completion event. The code does not: \<open>close()\<close> on a
  coroutine that has not run executes none of \<open>_wrapper\<close>, so the coroutine is closed while
  \<open>_state\<close> stays \<open>CREATED\<close> and \<open>_event\<close> is never set, and a later \<open>start\<close> of that task
  passes the state check and fails in \<open>send\<close>. The theorem evaluates the code on a task
  with any awaitable that was created and cancelled at once.
\<close>

theorem cancel_before_start_stays_created:
  "cancel (new_task p) = (None, (new_task p)\<lparr>cancel_called := True, root_coro := Coro_closed\<rparr>)
   \<and> state (snd (cancel (new_task p))) = CREATED
   \<and> state (snd (cancel (new_task p))) \<notin> ENDED
   \<and> \<not> ev_flag (event (snd (cancel (new_task p))))
   \<and> getcoroutinestate (root_coro (snd (cancel (new_task p)))) = CORO_CLOSED
   \<and> start Arg_task (snd (cancel (new_task p)))
       = (Some (RuntimeError Already_awaited), snd (cancel (new_task p)))"
  by (simp add: new_task_def Task_init_def env0_def cancel_def Let_def is_cancellable_def
        actual_cancel_def coro_close_def Event_init_def ENDED_def start_def first_step_def
        coro_send_def)

text \<open>
  Claim C3. The claim says that \<open>start\<close> on a Task that is not \<open>CREATED\<close> fails with
  \<open>InvalidStateError\<close>. The code raises \<open>ValueError\<close>, the exception \<open>Task.__init__\<close> raises
  for an argument that is not awaitable; starting a task that waits in \<open>sleep_forever\<close>
  a second time shows it.
\<close>

theorem start_twice_raises_ValueError:
  "state (snd (start Arg_task (new_task [Sleep_forever]))) \<noteq> CREATED
   \<and> fst (start Arg_task (snd (start Arg_task (new_task [Sleep_forever]))))
       = Some (ValueError (Was_already_started 0 []))
   \<and> \<not> fails_with_InvalidState (start Arg_task (snd (start Arg_task (new_task [Sleep_forever]))))"
  by (simp add: fails_with_InvalidState_def) code_simp

text \<open>
  Claim C3, amended. \<open>start\<close> on a Task whose state is not \<open>CREATED\<close> raises
  \<open>ValueError\<close> with the message that the task was already started, and leaves the task
  as it was; in particular the second \<open>start\<close> of the same Task does.
\<close>

theorem start_not_created:
  assumes "state w \<noteq> CREATED"
  shows "start Arg_task w = (Some (ValueError (Was_already_started (uid w) (name w))), w)"
  using assms by (simp add: start_def)

theorem start_not_created_witness:
  "start Arg_task (snd (start Arg_task (new_task [Sleep_forever])))
   = (Some (ValueError (Was_already_started 0 [])), snd (start Arg_task (new_task [Sleep_forever])))"
proof -
  have s: "state (snd (start Arg_task (new_task [Sleep_forever]))) \<noteq> CREATED" by code_simp
  have u: "uid (snd (start Arg_task (new_task [Sleep_forever]))) = 0" by code_simp
  have n: "name (snd (start Arg_task (new_task [Sleep_forever]))) = []" by code_simp
  from start_not_created [OF s] u n show ?thesis by simp
qed

text \<open>
  Claim C4. For a task made by \<open>Task.__init__\<close> and driven by any sequence of operations,
  \<open>Task.result\<close> returns the stored value when the state is \<open>DONE\<close> (and only then returns
  at all), raises \<open>InvalidStateError\<close> with the message "was cancelled" when the state is
  \<open>CANCELLED\<close>, and raises \<open>InvalidStateError\<close> with the different message "is not ready"
  when the state is \<open>CREATED\<close> or \<open>STARTED\<close>.
\<close>

theorem result_by_state:
  assumes "Task_init (Awaitable p) nm ud env = Inr w0"
  shows "(state (run_ops ops w0) = DONE \<longrightarrow>
            (\<exists>v. result (run_ops ops w0) = Some v \<and> Task_result (run_ops ops w0) = Inr v))
    \<and> (state (run_ops ops w0) = CANCELLED \<longrightarrow>
          Task_result (run_ops ops w0)
          = Inl (InvalidStateError (Was_cancelled (uid (run_ops ops w0)) (name (run_ops ops w0)))))
    \<and> (state (run_ops ops w0) = CREATED \<or> state (run_ops ops w0) = STARTED \<longrightarrow>
          Task_result (run_ops ops w0)
          = Inl (InvalidStateError
                  (Result_is_not_ready (uid (run_ops ops w0)) (name (run_ops ops w0)))))
    \<and> ((\<exists>v. Task_result (run_ops ops w0) = Inr v) \<longleftrightarrow> state (run_ops ops w0) = DONE)
    \<and> Was_cancelled (uid (run_ops ops w0)) (name (run_ops ops w0))
        \<noteq> Result_is_not_ready (uid (run_ops ops w0)) (name (run_ops ops w0))"
proof -
  have "good (run_ops ops w0)" using assms by (rule reachable_good)
  then have "state (run_ops ops w0) = DONE \<longrightarrow> result (run_ops ops w0) \<noteq> None"
    by (simp add: good_def task_inv_def)
  then show ?thesis
    by (cases "state (run_ops ops w0)") (auto simp: Task_result_def)
qed

theorem result_by_state_witness:
  "Task_result (run_ops [Op_start] (new_task [Return (VInt 42)])) = Inr (VInt 42)
   \<and> Task_result (run_ops [Op_start, Op_cancel] (new_task [Sleep_forever]))
       = Inl (InvalidStateError (Was_cancelled 0 []))
   \<and> Task_result (run_ops [Op_start] (new_task [Sleep_forever]))
       = Inl (InvalidStateError (Result_is_not_ready 0 []))"
proof -
  have i: "Task_init (Awaitable q) [] VNone env0 = Inr (new_task q)" for q
    by (simp add: new_task_def Task_init_def)
  have 1: "state (run_ops [Op_start] (new_task [Return (VInt 42)])) = DONE"
    "result (run_ops [Op_start] (new_task [Return (VInt 42)])) = Some (VInt 42)"
    by code_simp+
  have 2: "state (run_ops [Op_start, Op_cancel] (new_task [Sleep_forever])) = CANCELLED"
    "uid (run_ops [Op_start, Op_cancel] (new_task [Sleep_forever])) = 0"
    "name (run_ops [Op_start, Op_cancel] (new_task [Sleep_forever])) = []"
    by code_simp+
  have 3: "state (run_ops [Op_start] (new_task [Sleep_forever])) = STARTED"
    "uid (run_ops [Op_start] (new_task [Sleep_forever])) = 0"
    "name (run_ops [Op_start] (new_task [Sleep_forever])) = []"
    by code_simp+
  from result_by_state [OF i [of "[Return (VInt 42)]"], of "[Op_start]"] 1
    result_by_state [OF i [of "[Sleep_forever]"], of "[Op_start, Op_cancel]"] 2
    result_by_state [OF i [of "[Sleep_forever]"], of "[Op_start]"] 3
  show ?thesis by simp
qed

text \<open>
  Claim C5. A task wrapping \<open>sleep_forever()\<close>, in any environment: \<open>start\<close> returns with
  the task \<open>STARTED\<close> and unprotected, and \<open>cancel()\<close> then returns normally with the task
  \<open>CANCELLED\<close>, its coroutine closed and its completion event set.
\<close>

theorem sleep_forever_cancel:
  assumes "Task_init (Awaitable [Sleep_forever]) nm ud env = Inr w0"
  shows "fst (start Arg_task w0) = None
    \<and> state (snd (start Arg_task w0)) = STARTED
    \<and> cancel_protection (snd (start Arg_task w0)) = 0
    \<and> fst (cancel (snd (start Arg_task w0))) = None
    \<and> state (snd (cancel (snd (start Arg_task w0)))) = CANCELLED
    \<and> getcoroutinestate (root_coro (snd (cancel (snd (start Arg_task w0))))) = CORO_CLOSED
    \<and> ev_flag (event (snd (cancel (snd (start Arg_task w0)))))"
proof -
  from assms have w0: "root_coro w0 = Coro_created [Sleep_forever]" "state w0 = CREATED"
    "cancel_protection w0 = 0" "\<not> cancel_called w0" "\<not> ev_flag (event w0)"
    by (auto simp: Task_init_def Event_init_def)
  let ?w1 = "(set_state STARTED w0)\<lparr>root_coro := Coro_suspended R_sleep_forever []\<rparr>"
  from w0 have s: "start Arg_task w0 = (None, ?w1)"
    by (simp add: start_def first_step_def coro_send_def wrapper_def call_request_def
          check_cancel_def set_state_def)
  from w0 have c: "fst (cancel ?w1) = None \<and> state (snd (cancel ?w1)) = CANCELLED
    \<and> root_coro (snd (cancel ?w1)) = Coro_closed \<and> ev_flag (event (snd (cancel ?w1)))"
    by (simp add: cancel_def Let_def is_cancellable_def actual_cancel_def coro_close_def
          wrapper_def finally_set_def Event_set_def set_state_def)
  from s c w0 show ?thesis by (simp add: set_state_def)
qed

theorem sleep_forever_cancel_witness:
  "state (snd (start Arg_task (new_task [Sleep_forever]))) = STARTED
   \<and> state (snd (cancel (snd (start Arg_task (new_task [Sleep_forever]))))) = CANCELLED"
proof -
  have i: "Task_init (Awaitable [Sleep_forever]) [] VNone env0 = Inr (new_task [Sleep_forever])"
    by (simp add: new_task_def Task_init_def)
  from sleep_forever_cancel [OF i] show ?thesis by simp
qed

text \<open>
  Claim C10. For a task that any sequence of operations has brought to \<open>DONE\<close>,
  \<open>cancel()\<close> returns normally and changes nothing but \<open>_cancel_called\<close>: the state is still
  \<open>DONE\<close>, the stored result is the same and \<open>Task.result\<close> still returns it, and the
  completion event and the record of the calls to its callbacks are untouched, so nothing
  is notified again.
\<close>

theorem cancel_after_done:
  assumes "Task_init (Awaitable p) nm ud env = Inr w0" and "state (run_ops ops w0) = DONE"
  shows "cancel (run_ops ops w0) = (None, (run_ops ops w0)\<lparr>cancel_called := True\<rparr>)
    \<and> state (snd (cancel (run_ops ops w0))) = DONE
    \<and> result (snd (cancel (run_ops ops w0))) = result (run_ops ops w0)
    \<and> Task_result (snd (cancel (run_ops ops w0))) = Task_result (run_ops ops w0)
    \<and> (\<exists>v. Task_result (snd (cancel (run_ops ops w0))) = Inr v)
    \<and> event (snd (cancel (run_ops ops w0))) = event (run_ops ops w0)
    \<and> calls (snd (cancel (run_ops ops w0))) = calls (run_ops ops w0)"
proof -
  let ?w = "run_ops ops w0"
  have g: "task_inv ?w" using reachable_good [OF assms(1)] by (simp add: good_def)
  with assms(2) have c: "root_coro ?w = Coro_closed" "cancel_protection ?w = 0"
    "result ?w \<noteq> None"
    by (cases "root_coro ?w"; auto simp: task_inv_def)+
  then have "cancel ?w = (None, ?w\<lparr>cancel_called := True\<rparr>)"
    by (simp add: cancel_def Let_def is_cancellable_def actual_cancel_def coro_close_def)
  with assms(2) c show ?thesis by (auto simp: Task_result_def)
qed

theorem cancel_after_done_witness:
  "state (run_ops [Op_start] (new_task [Return (VInt 42)])) = DONE
   \<and> Task_result (snd (cancel (run_ops [Op_start] (new_task [Return (VInt 42)])))) = Inr (VInt 42)"
proof -
  have i: "Task_init (Awaitable [Return (VInt 42)]) [] VNone env0 = Inr (new_task [Return (VInt 42)])"
    by (simp add: new_task_def Task_init_def)
  have d: "state (run_ops [Op_start] (new_task [Return (VInt 42)])) = DONE" by code_simp
  have r: "Task_result (run_ops [Op_start] (new_task [Return (VInt 42)])) = Inr (VInt 42)"
    by code_simp
  from cancel_after_done [OF i d]
  have "Task_result (snd (cancel (run_ops [Op_start] (new_task [Return (VInt 42)]))))
    = Task_result (run_ops [Op_start] (new_task [Return (VInt 42)]))"
    by blast
  with d r show ?thesis by (simp only:)
qed

text \<open>
  Claim C7. Closing a started (suspended) task throws \<open>GeneratorExit\<close> into the wrapper,
  which raises it again whatever \<open>_suppresses_exception\<close> says, sets the state to
  \<open>CANCELLED\<close> and leaves \<open>_exception\<close> as it was; \<open>close\<close> then returns normally. For
  any exception \<open>e\<close> leaving the computation the wrapper sets \<open>CANCELLED\<close>, and it stores
  \<open>e\<close> in \<open>_exception\<close> and swallows it exactly when \<open>e\<close> is an \<open>Exception\<close> and suppression
  is configured; otherwise it raises \<open>e\<close> again and stores nothing. So in every reachable
  task \<open>_exception\<close> is never \<open>GeneratorExit\<close>: it holds only an \<open>Exception\<close>, of a task
  that is \<open>CANCELLED\<close>.
\<close>

theorem forced_close_not_captured:
  "(root_coro w = Coro_suspended r k \<longrightarrow>
      wrapper (Raised GeneratorExit, unwind k (w\<lparr>root_coro := Coro_running\<rparr>))
        = (Raises GeneratorExit, snd (actual_cancel w))
      \<and> fst (actual_cancel w) = None
      \<and> state (snd (actual_cancel w)) = CANCELLED
      \<and> exception (snd (actual_cancel w)) = exception w)
   \<and> (wrapper (Raised e, u) = (s, u') \<longrightarrow>
        state u' = CANCELLED
        \<and> (if is_Exception e \<and> suppresses_exception u
            then s = StopIteration \<and> exception u' = Some e
            else s = Raises e \<and> exception u' = exception u))
   \<and> (Task_init (Awaitable p) nm ud env = Inr w0 \<longrightarrow>
        exception (run_ops ops w0) \<noteq> Some GeneratorExit
        \<and> (\<forall>x. exception (run_ops ops w0) = Some x \<longrightarrow>
              is_Exception x \<and> state (run_ops ops w0) = CANCELLED))"
proof (intro conjI impI)
  assume "Task_init (Awaitable p) nm ud env = Inr w0"
  then have g: "task_inv (run_ops ops w0)" using reachable_good by (simp add: good_def)
  then show "\<forall>x. exception (run_ops ops w0) = Some x \<longrightarrow>
              is_Exception x \<and> state (run_ops ops w0) = CANCELLED"
    by (auto simp: task_inv_def)
  then show "exception (run_ops ops w0) \<noteq> Some GeneratorExit" by auto
qed (auto simp: actual_cancel_def coro_close_def wrapper_def finally_set_def Event_set_def
      set_state_def unwind_eq split: if_splits)

theorem forced_close_not_captured_witness:
  "state (snd (actual_cancel (run_ops [Op_suppress True, Op_start] (new_task [Sleep_forever]))))
     = CANCELLED
   \<and> exception (snd (actual_cancel (run_ops [Op_suppress True, Op_start] (new_task [Sleep_forever]))))
     = None
   \<and> fst (wrapper (Raised (UserError ''boom''),
         run_ops [Op_suppress True, Op_start] (new_task [Sleep_forever]))) = StopIteration
   \<and> is_Exception (UserError ''boom'')
   \<and> state (run_ops [Op_suppress True, Op_start] (new_task [Raise (UserError ''boom'')]))
     = CANCELLED"
proof -
  let ?w = "run_ops [Op_suppress True, Op_start] (new_task [Sleep_forever])"
  let ?v = "run_ops [Op_suppress True, Op_start] (new_task [Raise (UserError ''boom'')])"
  have r: "root_coro ?w = Coro_suspended R_sleep_forever []" by code_simp
  have x: "exception ?w = None" by code_simp
  have b: "suppresses_exception ?w" by code_simp
  have i: "Task_init (Awaitable [Raise (UserError ''boom'')]) [] VNone env0
    = Inr (new_task [Raise (UserError ''boom'')])"
    by (simp add: new_task_def Task_init_def)
  have e: "exception ?v = Some (UserError ''boom'')" by code_simp
  have wr: "wrapper (Raised (UserError ''boom''), ?w)
    = (fst (wrapper (Raised (UserError ''boom''), ?w)),
       snd (wrapper (Raised (UserError ''boom''), ?w)))"
    by (simp del: run_ops.simps)
  note t = forced_close_not_captured [where w = ?w and r = R_sleep_forever and k = "[]"
      and e = "UserError ''boom''" and u = ?w
      and s = "fst (wrapper (Raised (UserError ''boom''), ?w))"
      and u' = "snd (wrapper (Raised (UserError ''boom''), ?w))"
      and p = "[Raise (UserError ''boom'')]" and nm = "[]" and ud = VNone and env = env0
      and ?w0.0 = "new_task [Raise (UserError ''boom'')]"
      and ops = "[Op_suppress True, Op_start]"]
  from t r x have 1: "state (snd (actual_cancel ?w)) = CANCELLED"
    "exception (snd (actual_cancel ?w)) = None"
    by (simp_all only:)
  from t wr b have 2: "fst (wrapper (Raised (UserError ''boom''), ?w)) = StopIteration"
    by (simp del: run_ops.simps)
  from t i e have 3: "is_Exception (UserError ''boom'')" "state ?v = CANCELLED"
    by blast+
  from 1 2 3 show ?thesis by (simp only:)
qed

text \<open>
  Claim C8. The claim says that after \<open>set(a)\<close> and \<open>set(b)\<close> every waiter present at the
  first call has been notified exactly once. The loop of \<open>set\<close> has no handler: a waiter
  that raises ends it, and the waiters after it, already taken off the list, are never
  called. Here the task waits on the event and raises when resumed, and the callback
  registered after it is called neither by the first \<open>set\<close>, which raises, nor by the
  second.
\<close>

theorem set_twice_lost_waiter:
  "ev_step_coro_list (events
      (run_ops [Op_start, Op_events_add_callback 0 (External 1)]
         (new_task [Event_wait 0, Raise (UserError ''boom'')])) 0) = [Step_coro 0, External 1]
   \<and> \<not> ev_flag (events
      (run_ops [Op_start, Op_events_add_callback 0 (External 1)]
         (new_task [Event_wait 0, Raise (UserError ''boom'')])) 0)
   \<and> fst (events_set 0 [VInt 1] []
      (run_ops [Op_start, Op_events_add_callback 0 (External 1)]
         (new_task [Event_wait 0, Raise (UserError ''boom'')]))) = Some (UserError ''boom'')
   \<and> calls (snd (events_set 0 [VInt 2] [] (snd (events_set 0 [VInt 1] []
      (run_ops [Op_start, Op_events_add_callback 0 (External 1)]
         (new_task [Event_wait 0, Raise (UserError ''boom'')])))))) = []"
  by code_simp

text \<open>
  Claim C8, amended. For an Event that has not fired, \<open>set(a)\<close> stores \<open>a\<close> as the payload
  and makes one call with \<open>a\<close> for each waiter registered, in order; a second \<open>set(b)\<close>
  (no \<open>clear\<close> in between) makes no call and returns the Event unchanged. For an event of
  the environment, where the calls are performed: after the first \<open>set\<close> the payload is
  \<open>a\<close>, and the second \<open>set\<close> returns at once and changes nothing in the world; the
  first \<open>set\<close> has called a first part of the waiters present, each exactly once, in
  order and with \<open>a\<close>, and no other waiter at all; that part is all the waiters when
  the first \<open>set\<close> returns normally, so that each waiter is then notified exactly once
  in total; and when all waiters are callbacks of the driver it does return normally,
  having recorded one call with \<open>a\<close> for each, in order.
\<close>

theorem set_twice_notifies:
  "(\<not> ev_flag e \<longrightarrow>
      ev_value (fst (Event_set a ka e)) = Some (a, ka)
      \<and> snd (Event_set a ka e) = map (\<lambda>c. (c, a, ka)) (ev_step_coro_list e)
      \<and> Event_set b kb (fst (Event_set a ka e)) = (fst (Event_set a ka e), []))
   \<and> (\<not> ev_flag (events w i) \<longrightarrow>
        ev_value (events (snd (events_set i a ka w)) i) = Some (a, ka)
        \<and> events_set i b kb (snd (events_set i a ka w)) = (None, snd (events_set i a ka w))
        \<and> (\<exists>m\<le>length (ev_step_coro_list (events w i)).
              snd (events_set i a ka w)
              = notify_each_once
                  (take m (map (\<lambda>c. (c, a, ka)) (ev_step_coro_list (events w i))))
                  (fire i a ka w)
              \<and> (fst (events_set i a ka w) = None
                   \<longrightarrow> m = length (ev_step_coro_list (events w i))))
        \<and> (ev_step_coro_list (events w i) = map External ns \<longrightarrow>
              events_set i a ka w
              = (None, (fire i a ka w)\<lparr>calls := calls w @ map (\<lambda>n. (n, a, ka)) ns\<rparr>)))"
proof (intro conjI impI)
  assume n: "\<not> ev_flag (events w i)"
  let ?cs = "map (\<lambda>c. (c, a, ka)) (ev_step_coro_list (events w i))"
  from n have e: "events_set i a ka w = notify ?cs (fire i a ka w)"
    by (simp add: events_set_def Event_set_def fire_def)
  obtain x w1 where s: "notify ?cs (fire i a ka w) = (x, w1)" by force
  from notify_fired [OF s] have f: "ev_flag (events w1 i)" "ev_value (events w1 i) = Some (a, ka)"
    by (simp_all add: same_fired_def fire_def)
  from f e s show "ev_value (events (snd (events_set i a ka w)) i) = Some (a, ka)" by simp
  from f e s show "events_set i b kb (snd (events_set i a ka w)) = (None, snd (events_set i a ka w))"
    by (simp add: events_set_def Event_set_def)
  from notify_prefix [of ?cs "fire i a ka w"]
  show "\<exists>m\<le>length (ev_step_coro_list (events w i)).
              snd (events_set i a ka w)
              = notify_each_once (take m ?cs) (fire i a ka w)
              \<and> (fst (events_set i a ka w) = None
                   \<longrightarrow> m = length (ev_step_coro_list (events w i)))"
    by (simp only: e length_map)
  assume "ev_step_coro_list (events w i) = map External ns"
  then have "?cs = map (\<lambda>n. (External n, a, ka)) ns" by simp
  with e notify_External [of a ka ns "fire i a ka w"]
  show "events_set i a ka w
              = (None, (fire i a ka w)\<lparr>calls := calls w @ map (\<lambda>n. (n, a, ka)) ns\<rparr>)"
    by (simp add: fire_def)
qed (simp_all add: Event_set_def)

theorem set_twice_notifies_witness:
  "snd (Event_set [VInt 1] [] (Event_init\<lparr>ev_step_coro_list := [3::nat, 5]\<rparr>))
     = [(3, [VInt 1], []), (5, [VInt 1], [])]
   \<and> snd (events_set 0 [VInt 1] []
        (run_ops [Op_start, Op_events_add_callback 0 (External 1)]
           (new_task [Event_wait 0, Return (VInt 42)])))
     = notify_each_once [(Step_coro 0, [VInt 1], []), (External 1, [VInt 1], [])]
        (fire 0 [VInt 1] []
           (run_ops [Op_start, Op_events_add_callback 0 (External 1)]
              (new_task [Event_wait 0, Return (VInt 42)])))
   \<and> events_set 0 [VInt 2] [] (snd (events_set 0 [VInt 1] []
        (run_ops [Op_start, Op_events_add_callback 0 (External 1)]
           (new_task [Event_wait 0, Return (VInt 42)]))))
     = (None, snd (events_set 0 [VInt 1] []
        (run_ops [Op_start, Op_events_add_callback 0 (External 1)]
           (new_task [Event_wait 0, Return (VInt 42)]))))
   \<and> calls (snd (events_set 0 [VInt 1] []
        (run_ops [Op_events_add_callback 0 (External 3), Op_events_add_callback 0 (External 5)]
           (new_task [Sleep_forever]))))
     = [(3, [VInt 1], []), (5, [VInt 1], [])]"
proof -
  let ?e = "Event_init\<lparr>ev_step_coro_list := [3::nat, 5]\<rparr>"
  let ?w = "run_ops [Op_start, Op_events_add_callback 0 (External 1)]
              (new_task [Event_wait 0, Return (VInt 42)])"
  let ?v = "run_ops [Op_events_add_callback 0 (External 3), Op_events_add_callback 0 (External 5)]
              (new_task [Sleep_forever])"
  let ?s = "events_set 0 [VInt 1] [] ?w"
  have e: "\<not> ev_flag ?e" by (simp add: Event_init_def)
  have hw: "\<not> ev_flag (events ?w 0)" by code_simp
  have lw: "ev_step_coro_list (events ?w 0) = [Step_coro 0, External 1]" by code_simp
  have rw: "fst ?s = None" by code_simp
  have hv: "\<not> ev_flag (events ?v 0)" by code_simp
  have lv: "ev_step_coro_list (events ?v 0) = map External [3, 5]" by code_simp
  have cv: "calls ?v = []" by code_simp
  note t = set_twice_notifies [where e = ?e and a = "[VInt 1]" and ka = "[]" and b = "[VInt 2]"
      and kb = "[]" and w = ?w and i = 0 and ns = "[]"]
  note tw = t [THEN conjunct2, THEN mp, OF hw]
  from t [THEN conjunct1, THEN mp, OF e]
  have 1: "snd (Event_set [VInt 1] [] ?e) = [(3, [VInt 1], []), (5, [VInt 1], [])]"
    by simp
  from tw [THEN conjunct2, THEN conjunct2, THEN conjunct1]
  obtain m where m: "m \<le> length (ev_step_coro_list (events ?w 0))
    \<and> snd ?s = notify_each_once
          (take m (map (\<lambda>c. (c, [VInt 1], [])) (ev_step_coro_list (events ?w 0))))
          (fire 0 [VInt 1] [] ?w)
    \<and> (fst ?s = None \<longrightarrow> m = length (ev_step_coro_list (events ?w 0)))"
    by (rule exE)
  from m rw have "m = length (ev_step_coro_list (events ?w 0))"
    by (elim conjE impE) assumption+
  then have m2: "take m (map (\<lambda>c. (c, [VInt 1], [])) (ev_step_coro_list (events ?w 0)))
    = [(Step_coro 0, [VInt 1], []), (External 1, [VInt 1], [])]"
    by (simp only: lw) simp
  from m have "snd ?s = notify_each_once
          (take m (map (\<lambda>c. (c, [VInt 1], [])) (ev_step_coro_list (events ?w 0))))
          (fire 0 [VInt 1] [] ?w)"
    by (elim conjE)
  then have 2: "snd ?s = notify_each_once
      [(Step_coro 0, [VInt 1], []), (External 1, [VInt 1], [])] (fire 0 [VInt 1] [] ?w)"
    by (simp only: m2)
  note 3 = tw [THEN conjunct2, THEN conjunct1]
  note u = set_twice_notifies [where e = ?e and a = "[VInt 1]" and ka = "[]" and b = "[VInt 2]"
      and kb = "[]" and w = ?v and i = 0 and ns = "[3, 5]"]
  from u [THEN conjunct2, THEN mp, OF hv, THEN conjunct2, THEN conjunct2, THEN conjunct2,
      THEN mp, OF lv]
  have "calls (snd (events_set 0 [VInt 1] [] ?v))
    = calls ?v @ map (\<lambda>n. (n, [VInt 1], [])) [3, 5]"
    by (simp only: snd_conv) (simp add: fire_def del: run_ops.simps)
  then have 4: "calls (snd (events_set 0 [VInt 1] [] ?v)) = [(3, [VInt 1], []), (5, [VInt 1], [])]"
    by (simp only: cv) simp
  from 1 2 3 4 show ?thesis by (intro conjI)
qed

text \<open>
  Claim C6. While \<open>_cancel_protection\<close> is not 0, \<open>cancel()\<close> only sets
  \<open>_cancel_called\<close>, and the check after a step closes nothing. Entering a protection
  scope and running on, the depth afterwards is the depth before, less the scopes that
  were left (by falling through, \<open>return\<close> or an exception) plus those still open at the
  \<open>yield\<close> reached: every scope left has given back what it took. And for a task made by
  \<open>Task.__init__\<close> and driven by any sequence of operations: whenever the driver has
  control, a cancellation that was requested and an unprotected task mean that the
  coroutine has been closed, and the depth is the number of scopes the suspended
  computation is inside of, 0 when the coroutine is not suspended.
\<close>

theorem protection_defers_cancel:
  "(cancel_protection w \<noteq> 0 \<longrightarrow>
      cancel w = (None, w\<lparr>cancel_called := True\<rparr>) \<and> check_cancel w = (None, w))
   \<and> (root_coro u = Coro_running \<and>
        resume_with (R_cancel_protection body) k (Some ([VStep_coro], [])) u = (out, u') \<longrightarrow>
        cancel_protection u' = cancel_protection u - int (open_scopes k) + int (left_open out))
   \<and> (Task_init (Awaitable p) nm ud env = Inr w0 \<longrightarrow>
        (cancel_called (run_ops ops w0) \<and> cancel_protection (run_ops ops w0) = 0
           \<longrightarrow> root_coro (run_ops ops w0) = Coro_closed)
        \<and> cancel_protection (run_ops ops w0)
            = (case root_coro (run_ops ops w0) of
                 Coro_suspended r k \<Rightarrow> int (open_scopes k)
               | _ \<Rightarrow> 0))"
proof (intro conjI impI)
  assume "cancel_protection w \<noteq> 0"
  then show "cancel w = (None, w\<lparr>cancel_called := True\<rparr>)" "check_cancel w = (None, w)"
    by (simp_all add: cancel_def Let_def is_cancellable_def check_cancel_def)
next
  assume "root_coro u = Coro_running \<and>
        resume_with (R_cancel_protection body) k (Some ([VStep_coro], [])) u = (out, u')"
  then show "cancel_protection u' = cancel_protection u - int (open_scopes k) + int (left_open out)"
    using resume_char by blast
next
  assume "Task_init (Awaitable p) nm ud env = Inr w0"
  then have g: "good (run_ops ops w0)" by (rule reachable_good)
  then show "cancel_protection (run_ops ops w0)
            = (case root_coro (run_ops ops w0) of
                 Coro_suspended r k \<Rightarrow> int (open_scopes k)
               | _ \<Rightarrow> 0)"
    by (cases "root_coro (run_ops ops w0)") (auto simp: good_def task_inv_def)
  assume "cancel_called (run_ops ops w0) \<and> cancel_protection (run_ops ops w0) = 0"
  with g show "root_coro (run_ops ops w0) = Coro_closed" by (simp add: good_def settled_def)
qed

theorem protection_defers_cancel_witness:
  "state (snd (cancel (run_ops [Op_start]
       (new_task [Cancel_protection [Sleep_forever], Sleep_forever])))) = STARTED
   \<and> cancel_protection (run_ops [Op_start, Op_cancel]
       (new_task [Cancel_protection [Sleep_forever], Sleep_forever])) = 1
   \<and> state (run_ops [Op_start, Op_cancel, Op_step_coro [] []]
       (new_task [Cancel_protection [Sleep_forever], Sleep_forever])) = CANCELLED
   \<and> root_coro (run_ops [Op_start, Op_cancel, Op_step_coro [] []]
       (new_task [Cancel_protection [Sleep_forever], Sleep_forever])) = Coro_closed
   \<and> cancel_protection (snd (resume_with (R_cancel_protection [Raise (UserError ''boom'')]) []
        (Some ([VStep_coro], [])) ((new_task [])\<lparr>root_coro := Coro_running\<rparr>))) = 0"
proof -
  let ?p = "[Cancel_protection [Sleep_forever], Sleep_forever]"
  let ?w = "run_ops [Op_start] (new_task ?p)"
  let ?u = "(new_task [])\<lparr>root_coro := Coro_running\<rparr>"
  let ?r = "resume_with (R_cancel_protection [Raise (UserError ''boom'')]) []
        (Some ([VStep_coro], [])) ?u"
  have i: "Task_init (Awaitable ?p) [] VNone env0 = Inr (new_task ?p)"
    by (simp add: new_task_def Task_init_def)
  have d: "cancel_protection ?w \<noteq> 0" by code_simp
  have s: "state ?w = STARTED" by code_simp
  have c: "cancel_called (run_ops [Op_start, Op_cancel, Op_step_coro [] []] (new_task ?p))"
    "cancel_protection (run_ops [Op_start, Op_cancel, Op_step_coro [] []] (new_task ?p)) = 0"
    "state (run_ops [Op_start, Op_cancel, Op_step_coro [] []] (new_task ?p)) = CANCELLED"
    "cancel_protection (run_ops [Op_start, Op_cancel] (new_task ?p)) = 1"
    by code_simp+
  have u: "root_coro ?u = Coro_running" "cancel_protection ?u = 0" "fst ?r = Raised (UserError ''boom'')"
    by code_simp+
  note t = protection_defers_cancel [where w = ?w and u = ?u
      and body = "[Raise (UserError ''boom'')]" and k = "[]" and out = "fst ?r" and u' = "snd ?r"
      and p = ?p and nm = "[]" and ud = VNone and env = env0 and ?w0.0 = "new_task ?p"
      and ops = "[Op_start, Op_cancel, Op_step_coro [] []]"]
  from t d have "cancel ?w = (None, ?w\<lparr>cancel_called := True\<rparr>)" by blast
  with s have 1: "state (snd (cancel ?w)) = STARTED" by (simp del: run_ops.simps)
  from t i c have 2: "root_coro (run_ops [Op_start, Op_cancel, Op_step_coro [] []] (new_task ?p))
    = Coro_closed" by blast
  have "(fst ?r, snd ?r) = ?r" by simp
  with t u(1) have "cancel_protection (snd ?r)
    = cancel_protection ?u - int (open_scopes []) + int (left_open (fst ?r))"
    by (simp only:)
  with u have 3: "cancel_protection (snd ?r) = 0" by (simp add: left_open_def)
  from 1 2 3 c show ?thesis by (simp only:)
qed



end
